theory Spec2Isabelle
  imports Main "HOL-Library.Word" "HOL-Library.Sublist"
begin

text \<open>
  The stream decoder and the content extractors of the assistant's front end:
  \<^item> \<^verbatim>\<open>api.post\<close> (services/api.ts) reads a chunked response, takes the lines that start with
    \<^verbatim>\<open>data: \<close>, parses what follows as JSON and appends the \<^verbatim>\<open>content\<close> of every frame of
    type \<^verbatim>\<open>content\<close> to the answer, calling the observer with the whole answer each time;
  \<^item> \<^verbatim>\<open>detectMessageType\<close> (the chat component) classifies a finished answer;
  \<^item> \<^verbatim>\<open>parseEmailFromText\<close>, \<^verbatim>\<open>parseMultipleEmails\<close> and \<^verbatim>\<open>parseCalendarEventsFromText\<close>
    (the parsing utilities) read records out of a numbered list with regular expressions.
  The definitions follow the source line by line; the runtime functions they call
  (string methods, regular expressions, \<^verbatim>\<open>JSON.parse\<close>, string conversion) are modelled
  from ECMAScript.
\<close>

section \<open>JavaScript strings\<close>

text \<open>
  A JavaScript string is a sequence of UTF-16 code units. None of the operations used by
  the program (\<^verbatim>\<open>includes\<close>, \<^verbatim>\<open>startsWith\<close>, \<^verbatim>\<open>slice\<close>, \<^verbatim>\<open>split\<close>, \<^verbatim>\<open>trim\<close>, regular expressions
  without the \<^verbatim>\<open>u\<close> flag) looks at code points, so a list of 16-bit words is the string.
  \<open>js\<close> writes an ASCII literal of the source as such a list.
\<close>

type_synonym code_unit = "16 word"
type_synonym js_string = "code_unit list"

definition js :: "string \<Rightarrow> js_string" where
  "js s = map (\<lambda>c. word_of_nat (of_char c)) s"

text \<open>\<^verbatim>\<open>s.includes(lit)\<close> and \<^verbatim>\<open>s.startsWith(lit)\<close>.\<close>

definition string_includes :: "js_string \<Rightarrow> js_string \<Rightarrow> bool" where
  "string_includes s lit = sublist lit s"

definition startsWith :: "js_string \<Rightarrow> js_string \<Rightarrow> bool" where
  "startsWith s lit = prefix lit s"

text \<open>
  The class \<^verbatim>\<open>\s\<close> of regular expressions, which is also what \<^verbatim>\<open>trim\<close> strips: the
  WhiteSpace and LineTerminator code points of ECMAScript (TAB, LF, VT, FF, CR, SP, NBSP,
  U+1680, U+2000 to U+200A, U+2028, U+2029, U+202F, U+205F, U+3000, U+FEFF).
  The class \<^verbatim>\<open>\d\<close> is the ASCII digits.
\<close>

definition is_space :: "code_unit \<Rightarrow> bool" where
  "is_space c =
     (c = 0x09 \<or> c = 0x0A \<or> c = 0x0B \<or> c = 0x0C \<or> c = 0x0D \<or> c = 0x20 \<or> c = 0xA0
      \<or> c = 0x1680 \<or> (0x2000 \<le> c \<and> c \<le> 0x200A) \<or> c = 0x2028 \<or> c = 0x2029
      \<or> c = 0x202F \<or> c = 0x205F \<or> c = 0x3000 \<or> c = 0xFEFF)"

definition is_digit :: "code_unit \<Rightarrow> bool" where
  "is_digit c = (0x30 \<le> c \<and> c \<le> 0x39)"

definition trim :: "js_string \<Rightarrow> js_string" where
  "trim s = rev (dropWhile is_space (rev (dropWhile is_space s)))"

section \<open>The regular expressions of the extractors\<close>

text \<open>
  Every field pattern of the source has the shape \<^verbatim>\<open>/LIT(.*?)(?=AHEAD)/s\<close> or
  \<^verbatim>\<open>/LIT(.*?)$/s\<close>: a literal, a lazy capture in which the dot matches every code unit
  (flag \<^verbatim>\<open>s\<close>), and a zero-width condition. The backtracking matcher tries the start
  positions from left to right and, at a start position where the literal matches, the
  captures from the shortest on. \<open>regex_match\<close> is \<^verbatim>\<open>text.match(re)\<close> reduced to what the
  callers read: \<open>None\<close> for \<^verbatim>\<open>null\<close>, otherwise capture group 1.
\<close>

fun lazy_capture :: "(js_string \<Rightarrow> bool) \<Rightarrow> js_string \<Rightarrow> js_string option" where
  "lazy_capture ahead [] = (if ahead [] then Some [] else None)"
| "lazy_capture ahead (c # cs) =
     (if ahead (c # cs) then Some [] else map_option ((#) c) (lazy_capture ahead cs))"

definition match_here :: "js_string \<Rightarrow> (js_string \<Rightarrow> bool) \<Rightarrow> js_string \<Rightarrow> js_string option" where
  "match_here lit ahead s =
     (if prefix lit s then lazy_capture ahead (drop (length lit) s) else None)"

fun regex_match :: "js_string \<Rightarrow> (js_string \<Rightarrow> bool) \<Rightarrow> js_string \<Rightarrow> js_string option" where
  "regex_match lit ahead [] = match_here lit ahead []"
| "regex_match lit ahead (c # cs) =
     (case match_here lit ahead (c # cs) of
        Some g \<Rightarrow> Some g
      | None \<Rightarrow> regex_match lit ahead cs)"

text \<open>
  The lookahead \<^verbatim>\<open>(?=\s*-\s*LABEL)\<close>. Neither the hyphen nor the first unit of a label is
  white space, so the greedy \<^verbatim>\<open>\s*\<close> has one way to match. \<open>at_end\<close> is \<^verbatim>\<open>$\<close> without the
  \<^verbatim>\<open>m\<close> flag: the end of the input.
\<close>

definition ahead_label :: "js_string \<Rightarrow> js_string \<Rightarrow> bool" where
  "ahead_label label s =
     (case dropWhile is_space s of
        [] \<Rightarrow> False
      | c # r \<Rightarrow> c = 0x2D \<and> prefix label (dropWhile is_space r))"

definition at_end :: "js_string \<Rightarrow> bool" where
  "at_end s = (s = [])"

text \<open>
  \<^verbatim>\<open>text.split(/\d+\./)\<close>. \<open>match_delim s\<close> matches the delimiter at the start of \<open>s\<close> and
  returns what follows the match: the greedy \<^verbatim>\<open>\d+\<close> takes the whole run of digits, and
  giving digits back cannot help, since a digit is not a period. \<open>split_loop seg s\<close> is the
  loop of the split algorithm, with \<open>seg\<close> the units between the end of the last match and
  the position tried, and \<open>s\<close> the text from that position on; a match is never empty.
\<close>

definition match_delim :: "js_string \<Rightarrow> js_string option" where
  "match_delim s =
     (case dropWhile is_digit s of
        [] \<Rightarrow> None
      | c # r \<Rightarrow> if takeWhile is_digit s \<noteq> [] \<and> c = 0x2E then Some r else None)"

lemma match_delim_shorter: "match_delim s = Some r \<Longrightarrow> length r < length s"
proof -
  assume m: "match_delim s = Some r"
  then obtain c where "dropWhile is_digit s = c # r"
    by (auto simp: match_delim_def split: list.splits if_splits)
  then have "length (dropWhile is_digit s) = Suc (length r)" by simp
  moreover have "length (dropWhile is_digit s) \<le> length s" by (rule length_dropWhile_le)
  ultimately show ?thesis by simp
qed

function split_loop :: "js_string \<Rightarrow> js_string \<Rightarrow> js_string list" where
  "split_loop seg [] = [seg]"
| "split_loop seg (c # cs) =
     (case match_delim (c # cs) of
        Some rest \<Rightarrow> seg # split_loop [] rest
      | None \<Rightarrow> split_loop (seg @ [c]) cs)"
  by pat_completeness auto
termination
  by (relation "measure (\<lambda>(seg, s). length s)") (auto dest: match_delim_shorter)

definition split_numbered :: "js_string \<Rightarrow> js_string list" where
  "split_numbered text = split_loop [] text"

section \<open>The extractors\<close>

record EmailData =
  sender :: js_string
  date :: js_string
  subject :: js_string
  content :: js_string

record CalendarEvent =
  event :: js_string
  location :: js_string
  time :: js_string

text \<open>
  \<^verbatim>\<open>parseEmailFromText\<close>: the field \<^verbatim>\<open>from\<close> of the source is \<open>sender\<close> here (\<^verbatim>\<open>from\<close> is
  reserved). Nothing in the body can throw on a string, so the \<^verbatim>\<open>catch\<close> branch is dead
  and \<^verbatim>\<open>null\<close> is returned only when a pattern does not match.
\<close>

definition parseEmailFromText :: "js_string \<Rightarrow> EmailData option" where
  "parseEmailFromText text =
     (let fromMatch = regex_match (js ''**From**: '') (ahead_label (js ''**Date**:'')) text;
          dateMatch = regex_match (js ''**Date**: '') (ahead_label (js ''**Subject**:'')) text;
          subjectMatch = regex_match (js ''**Subject**: '') (ahead_label (js ''**Content**:'')) text;
          contentMatch = regex_match (js ''**Content**: '') at_end text
      in case (fromMatch, dateMatch, subjectMatch, contentMatch) of
           (Some f, Some d, Some s, Some c) \<Rightarrow>
             Some \<lparr>sender = trim f, date = trim d, subject = trim s, content = trim c\<rparr>
         | _ \<Rightarrow> None)"

definition closingPhrases :: "js_string list" where
  "closingPhrases =
     [js ''If you need more information'',
      js ''If you need any further actions'',
      js ''Let me know if you need'',
      js ''Just let me know'',
      js ''Is there anything else'']"

text \<open>The filter callback of \<^verbatim>\<open>parseMultipleEmails\<close>, and its \<^verbatim>\<open>forEach\<close> loop.\<close>

definition keepBlock :: "js_string \<Rightarrow> bool" where
  "keepBlock block = (\<not> list_ex (\<lambda>phrase. string_includes block phrase) closingPhrases)"

definition pushEmail :: "js_string \<Rightarrow> EmailData list \<Rightarrow> EmailData list" where
  "pushEmail block emails =
     (case parseEmailFromText block of
        Some emailData \<Rightarrow> emails @ [emailData]
      | None \<Rightarrow> emails)"

definition emailsOfBlocks :: "js_string list \<Rightarrow> EmailData list" where
  "emailsOfBlocks emailBlocks =
     (let filteredBlocks = filter keepBlock emailBlocks
      in fold pushEmail filteredBlocks [])"

definition parseMultipleEmails :: "js_string \<Rightarrow> EmailData list" where
  "parseMultipleEmails text =
     (let emailBlocks = drop 1 (split_numbered text)
      in emailsOfBlocks emailBlocks)"

text \<open>
  \<^verbatim>\<open>parseCalendarEventsFromText\<close>: \<open>calendarOfBlock\<close> is the body of its \<^verbatim>\<open>forEach\<close>
  callback. Here too no operation can throw, so the \<^verbatim>\<open>catch\<close> branch is dead.
\<close>

definition calendarOfBlock :: "js_string \<Rightarrow> CalendarEvent option" where
  "calendarOfBlock block =
     (let eventMatch = regex_match (js ''**Event**: '') (ahead_label (js ''**Location**:'')) block;
          locationMatch = regex_match (js ''**Location**: '') (ahead_label (js ''**Time**:'')) block;
          timeMatch = regex_match (js ''**Time**: '') at_end block
      in case (eventMatch, locationMatch, timeMatch) of
           (Some e, Some l, Some t) \<Rightarrow> Some \<lparr>event = trim e, location = trim l, time = trim t\<rparr>
         | _ \<Rightarrow> None)"

definition pushEvent :: "js_string \<Rightarrow> CalendarEvent list \<Rightarrow> CalendarEvent list" where
  "pushEvent block events =
     (case calendarOfBlock block of
        Some ev \<Rightarrow> events @ [ev]
      | None \<Rightarrow> events)"

definition parseCalendarEventsFromText :: "js_string \<Rightarrow> CalendarEvent list" where
  "parseCalendarEventsFromText text =
     (let eventBlocks = drop 1 (split_numbered text)
      in fold pushEvent eventBlocks [])"

section \<open>The classifier\<close>

datatype message_type = Email | Calendar | Text

definition detectMessageType :: "js_string \<Rightarrow> message_type" where
  "detectMessageType text =
     (if string_includes text (js ''[EMAIL]'') then Email
      else if string_includes text (js ''**Event**:'') \<and> string_includes text (js ''**Location**:'')
        then Calendar
      else Text)"

section \<open>\<^verbatim>\<open>JSON.parse\<close>\<close>

text \<open>
  \<^verbatim>\<open>JSON.parse\<close> belongs to the runtime, not to the repository; it is modelled from the JSON
  grammar of ECMAScript: a lexer, then a pushdown automaton on the tokens. A number keeps
  its lexeme. An object keeps its members in source order; a later member with the same
  key overrides an earlier one when a property is read. \<open>None\<close> stands for the
  \<^verbatim>\<open>SyntaxError\<close> thrown on any text outside the grammar.
\<close>

datatype json =
    JNull
  | JBool bool
  | JNumber js_string
  | JString js_string
  | JArray "json list"
  | JObject "(js_string \<times> json) list"

datatype token =
    TLBrace | TRBrace | TLBracket | TRBracket | TColon | TComma
  | TStr js_string | TNum js_string | TTrue | TFalse | TNull

definition is_json_ws :: "code_unit \<Rightarrow> bool" where
  "is_json_ws c = (c = 0x09 \<or> c = 0x0A \<or> c = 0x0D \<or> c = 0x20)"

definition hex_value :: "code_unit \<Rightarrow> nat option" where
  "hex_value c =
     (if 0x30 \<le> c \<and> c \<le> 0x39 then Some (unat c - 0x30)
      else if 0x41 \<le> c \<and> c \<le> 0x46 then Some (unat c - 0x37)
      else if 0x61 \<le> c \<and> c \<le> 0x66 then Some (unat c - 0x57)
      else None)"

text \<open>The single-character escapes: quote, backslash, slash, b, f, n, r, t.\<close>

definition escape_unit :: "code_unit \<Rightarrow> code_unit option" where
  "escape_unit e =
     (if e = 0x22 then Some 0x22
      else if e = 0x5C then Some 0x5C
      else if e = 0x2F then Some 0x2F
      else if e = 0x62 then Some 0x08
      else if e = 0x66 then Some 0x0C
      else if e = 0x6E then Some 0x0A
      else if e = 0x72 then Some 0x0D
      else if e = 0x74 then Some 0x09
      else None)"

text \<open>
  \<open>lex_string\<close> reads a string literal after its opening quote and returns the string it
  denotes with the text after the closing quote. Control characters below U+0020 are not
  allowed unescaped.
\<close>

fun lex_string :: "js_string \<Rightarrow> (js_string \<times> js_string) option" where
  "lex_string [] = None"
| "lex_string (c # cs) =
     (if c = 0x22 then Some ([], cs)
      else if c = 0x5C then
        (case cs of
           [] \<Rightarrow> None
         | e # r \<Rightarrow>
             if e = 0x75 then
               (case r of
                  h1 # h2 # h3 # h4 # r' \<Rightarrow>
                    (case (hex_value h1, hex_value h2, hex_value h3, hex_value h4) of
                       (Some a, Some b, Some c', Some d) \<Rightarrow>
                         map_option (apfst ((#) (word_of_nat (((a * 16 + b) * 16 + c') * 16 + d))))
                           (lex_string r')
                     | _ \<Rightarrow> None)
                | _ \<Rightarrow> None)
             else
               (case escape_unit e of
                  Some u \<Rightarrow> map_option (apfst ((#) u)) (lex_string r)
                | None \<Rightarrow> None))
      else if c < 0x20 then None
      else map_option (apfst ((#) c)) (lex_string cs))"

text \<open>
  \<open>lex_number\<close> reads a number at the start of the text:
  \<^verbatim>\<open>-? (0 | [1-9][0-9]*) (. [0-9]+)? ([eE] [+-]? [0-9]+)?\<close>, and returns the text after it.
  A period or an exponent mark with no digit after it is an error, since nothing else
  may follow a number there.
\<close>

definition lex_digits :: "js_string \<Rightarrow> js_string option" where
  "lex_digits s = (if takeWhile is_digit s = [] then None else Some (dropWhile is_digit s))"

definition lex_int :: "js_string \<Rightarrow> js_string option" where
  "lex_int s =
     (case s of
        [] \<Rightarrow> None
      | c # r \<Rightarrow> if c = 0x30 then Some r else lex_digits s)"

definition lex_frac :: "js_string \<Rightarrow> js_string option" where
  "lex_frac s =
     (case s of
        [] \<Rightarrow> Some s
      | c # r \<Rightarrow> if c = 0x2E then lex_digits r else Some s)"

definition lex_exp :: "js_string \<Rightarrow> js_string option" where
  "lex_exp s =
     (case s of
        [] \<Rightarrow> Some s
      | c # r \<Rightarrow>
          if c = 0x65 \<or> c = 0x45 then
            (case r of
               [] \<Rightarrow> None
             | g # r' \<Rightarrow> if g = 0x2B \<or> g = 0x2D then lex_digits r' else lex_digits r)
          else Some s)"

definition lex_number :: "js_string \<Rightarrow> (js_string \<times> js_string) option" where
  "lex_number s =
     (case Option.bind (Option.bind (lex_int (case s of c # r \<Rightarrow> if c = 0x2D then r else s | [] \<Rightarrow> s))
             lex_frac) lex_exp of
        None \<Rightarrow> None
      | Some rest \<Rightarrow> Some (take (length s - length rest) s, rest))"

lemma lex_string_shorter: "lex_string s = Some (v, r) \<Longrightarrow> length r < Suc (length s)"
proof (induction s arbitrary: v r rule: lex_string.induct)
  case 1
  then show ?case by simp
next
  case (2 c cs)
  then show ?case
    by (fastforce split: if_splits list.splits option.splits)
qed

lemma lex_digits_shorter: "lex_digits s = Some r \<Longrightarrow> length r < length s"
proof -
  assume "lex_digits s = Some r"
  then have r: "r = dropWhile is_digit s" and t: "takeWhile is_digit s \<noteq> []"
    by (auto simp: lex_digits_def split: if_splits)
  have "length (takeWhile is_digit s) + length (dropWhile is_digit s) = length s"
    by (metis length_append takeWhile_dropWhile_id)
  with t r show ?thesis by (cases "takeWhile is_digit s") auto
qed

lemma lex_int_shorter: "lex_int s = Some r \<Longrightarrow> length r < length s"
  by (auto simp: lex_int_def split: list.splits if_splits dest: lex_digits_shorter)

lemma lex_frac_shorter: "lex_frac s = Some r \<Longrightarrow> length r \<le> length s"
  by (auto simp: lex_frac_def split: list.splits if_splits dest: lex_digits_shorter)

lemma lex_exp_shorter: "lex_exp s = Some r \<Longrightarrow> length r \<le> length s"
  by (auto simp: lex_exp_def split: list.splits if_splits dest: lex_digits_shorter)

lemma lex_number_shorter: "lex_number s = Some (v, r) \<Longrightarrow> length r < length s"
proof -
  assume a: "lex_number s = Some (v, r)"
  define s0 where "s0 = (case s of c # r \<Rightarrow> if c = 0x2D then r else s | [] \<Rightarrow> s)"
  have s0: "length s0 \<le> length s"
    by (auto simp: s0_def split: list.splits)
  from a obtain r1 r2 where "lex_int s0 = Some r1" "lex_frac r1 = Some r2" "lex_exp r2 = Some r"
    by (auto simp: lex_number_def s0_def [symmetric] Option.bind_eq_Some_conv split: option.splits)
  then have "length r1 < length s0" "length r2 \<le> length r1" "length r \<le> length r2"
    by (auto dest: lex_int_shorter lex_frac_shorter lex_exp_shorter)
  with s0 show ?thesis by simp
qed

function tokenize :: "js_string \<Rightarrow> token list option" where
  "tokenize [] = Some []"
| "tokenize (c # cs) =
     (if is_json_ws c then tokenize cs
      else if c = 0x7B then map_option ((#) TLBrace) (tokenize cs)
      else if c = 0x7D then map_option ((#) TRBrace) (tokenize cs)
      else if c = 0x5B then map_option ((#) TLBracket) (tokenize cs)
      else if c = 0x5D then map_option ((#) TRBracket) (tokenize cs)
      else if c = 0x3A then map_option ((#) TColon) (tokenize cs)
      else if c = 0x2C then map_option ((#) TComma) (tokenize cs)
      else if c = 0x22 then
        (case lex_string cs of
           None \<Rightarrow> None
         | Some (str, rest) \<Rightarrow> map_option ((#) (TStr str)) (tokenize rest))
      else if c = 0x2D \<or> is_digit c then
        (case lex_number (c # cs) of
           None \<Rightarrow> None
         | Some (num, rest) \<Rightarrow> map_option ((#) (TNum num)) (tokenize rest))
      else if prefix (js ''true'') (c # cs) then map_option ((#) TTrue) (tokenize (drop 3 cs))
      else if prefix (js ''false'') (c # cs) then map_option ((#) TFalse) (tokenize (drop 4 cs))
      else if prefix (js ''null'') (c # cs) then map_option ((#) TNull) (tokenize (drop 3 cs))
      else None)"
  by pat_completeness auto
termination
  by (relation "measure length")
     (auto dest: lex_string_shorter lex_number_shorter simp: less_Suc_eq_le)

text \<open>
  The automaton: the stack holds the arrays and objects still open, an object with a
  member name read and its value awaited being an \<open>FMember\<close>; the mode says what may come
  next.
\<close>

datatype frame =
    FArr "json list"
  | FObj "(js_string \<times> json) list"
  | FMember "(js_string \<times> json) list" js_string

datatype mode =
    MValue | MArrStart | MArrNext | MObjStart | MKey | MColon | MObjNext | MDone json

fun complete :: "json \<Rightarrow> frame list \<Rightarrow> (frame list \<times> mode) option" where
  "complete v [] = Some ([], MDone v)"
| "complete v (FArr items # st) = Some (FArr (items @ [v]) # st, MArrNext)"
| "complete v (FMember ms k # st) = Some (FObj (ms @ [(k, v)]) # st, MObjNext)"
| "complete v (FObj ms # st) = None"

fun begin_value :: "token \<Rightarrow> frame list \<Rightarrow> (frame list \<times> mode) option" where
  "begin_value (TStr s) st = complete (JString s) st"
| "begin_value (TNum n) st = complete (JNumber n) st"
| "begin_value TTrue st = complete (JBool True) st"
| "begin_value TFalse st = complete (JBool False) st"
| "begin_value TNull st = complete JNull st"
| "begin_value TLBracket st = Some (FArr [] # st, MArrStart)"
| "begin_value TLBrace st = Some (FObj [] # st, MObjStart)"
| "begin_value _ st = None"

fun begin_member :: "token \<Rightarrow> frame list \<Rightarrow> (frame list \<times> mode) option" where
  "begin_member (TStr k) (FObj ms # st) = Some (FMember ms k # st, MColon)"
| "begin_member _ _ = None"

fun close_array :: "frame list \<Rightarrow> (frame list \<times> mode) option" where
  "close_array (FArr items # st) = complete (JArray items) st"
| "close_array _ = None"

fun close_object :: "frame list \<Rightarrow> (frame list \<times> mode) option" where
  "close_object (FObj ms # st) = complete (JObject ms) st"
| "close_object _ = None"

fun parse_step :: "mode \<Rightarrow> token \<Rightarrow> frame list \<Rightarrow> (frame list \<times> mode) option" where
  "parse_step MValue t st = begin_value t st"
| "parse_step MArrStart t st = (if t = TRBracket then close_array st else begin_value t st)"
| "parse_step MArrNext t st =
     (if t = TComma then Some (st, MValue) else if t = TRBracket then close_array st else None)"
| "parse_step MObjStart t st = (if t = TRBrace then close_object st else begin_member t st)"
| "parse_step MKey t st = begin_member t st"
| "parse_step MColon t st = (if t = TColon then Some (st, MValue) else None)"
| "parse_step MObjNext t st =
     (if t = TComma then Some (st, MKey) else if t = TRBrace then close_object st else None)"
| "parse_step (MDone v) t st = None"

fun parse_tokens :: "frame list \<Rightarrow> mode \<Rightarrow> token list \<Rightarrow> json option" where
  "parse_tokens st m [] = (case m of MDone v \<Rightarrow> Some v | _ \<Rightarrow> None)"
| "parse_tokens st m (t # ts) =
     (case parse_step m t st of
        None \<Rightarrow> None
      | Some (st', m') \<Rightarrow> parse_tokens st' m' ts)"

definition JSON_parse :: "js_string \<Rightarrow> json option" where
  "JSON_parse s =
     (case tokenize s of
        None \<Rightarrow> None
      | Some ts \<Rightarrow> parse_tokens [] MValue ts)"

section \<open>Reading and appending a parsed value\<close>

text \<open>
  What the decoder can throw, apart from the \<^verbatim>\<open>SyntaxError\<close> of \<^verbatim>\<open>JSON.parse\<close>.
  \<open>get_property v key\<close> is \<^verbatim>\<open>v.key\<close> for one of the keys \<^verbatim>\<open>type\<close>
  and \<^verbatim>\<open>content\<close>: a \<^verbatim>\<open>TypeError\<close> on \<^verbatim>\<open>null\<close>, the member's value on an object that has
  the key, and \<^verbatim>\<open>undefined\<close> (\<open>None\<close>) otherwise, since no prototype defines either key.
\<close>

datatype thrown = TypeError | NetworkError | HttpError nat | NoReader | ReadFailed

definition get_property :: "json \<Rightarrow> js_string \<Rightarrow> thrown + json option" where
  "get_property v key =
     (case v of
        JNull \<Rightarrow> Inl TypeError
      | JObject ms \<Rightarrow> Inr (map_of (rev ms) key)
      | _ \<Rightarrow> Inr None)"

text \<open>
  \<^verbatim>\<open>result += x\<close> appends the string conversion of \<open>x\<close>. \<^verbatim>\<open>undefined\<close>, \<^verbatim>\<open>null\<close> and the
  booleans give their names; an array joins the conversions of its elements with commas,
  \<^verbatim>\<open>null\<close> elements giving the empty string; an object gives \<^verbatim>\<open>[object Object]\<close>, unless
  it has a member \<^verbatim>\<open>toString\<close> of its own, which is not callable, and then the conversion
  throws a \<^verbatim>\<open>TypeError\<close>. The conversion of a number goes through its double-precision
  value, which is outside this model: it is the parameter \<open>num\<close>, from the lexeme to the
  string.
\<close>

fun to_string :: "(js_string \<Rightarrow> js_string) \<Rightarrow> json \<Rightarrow> thrown + js_string"
  and join_items :: "(js_string \<Rightarrow> js_string) \<Rightarrow> json list \<Rightarrow> thrown + js_string" where
  "to_string num JNull = Inr (js ''null'')"
| "to_string num (JBool b) = Inr (if b then js ''true'' else js ''false'')"
| "to_string num (JNumber n) = Inr (num n)"
| "to_string num (JString s) = Inr s"
| "to_string num (JArray items) = join_items num items"
| "to_string num (JObject ms) =
     (if map_of (rev ms) (js ''toString'') = None then Inr (js ''[object Object]'')
      else Inl TypeError)"
| "join_items num [] = Inr []"
| "join_items num (x # xs) =
     (case (if x = JNull then Inr [] else to_string num x) of
        Inl e \<Rightarrow> Inl e
      | Inr a \<Rightarrow>
          if xs = [] then Inr a
          else (case join_items num xs of
                  Inl e \<Rightarrow> Inl e
                | Inr b \<Rightarrow> Inr (a @ js '','' @ b)))"

definition to_string_or_undefined :: "(js_string \<Rightarrow> js_string) \<Rightarrow> json option \<Rightarrow> thrown + js_string" where
  "to_string_or_undefined num x =
     (case x of
        None \<Rightarrow> Inr (js ''undefined'')
      | Some v \<Rightarrow> to_string num v)"

section \<open>The stream decoder \<^verbatim>\<open>api.post\<close>\<close>

text \<open>
  \<^verbatim>\<open>chunk.split('\n')\<close>: the pieces between the newlines, one more than there are
  newlines.
\<close>

fun split_on :: "code_unit \<Rightarrow> js_string \<Rightarrow> js_string list" where
  "split_on sep [] = [[]]"
| "split_on sep (c # cs) =
     (if c = sep then [] # split_on sep cs
      else (case split_on sep cs of
              [] \<Rightarrow> [[c]]
            | l # ls \<Rightarrow> (c # l) # ls))"

text \<open>
  The state of one call: \<open>result\<close> is the variable of that name, \<open>emitted\<close> the arguments
  of the calls of \<^verbatim>\<open>onStream\<close> so far, in order. \<open>process_line\<close> is the body of the
  \<^verbatim>\<open>for\<close> loop; whatever is thrown inside its \<^verbatim>\<open>try\<close> is caught and the line is left.
  \<open>onStream\<close> says whether the caller passed a callback; the callback records its
  argument and does not throw.
\<close>

record decoder_state =
  result :: js_string
  emitted :: "js_string list"

definition process_line ::
  "(js_string \<Rightarrow> js_string) \<Rightarrow> bool \<Rightarrow> js_string \<Rightarrow> decoder_state \<Rightarrow> decoder_state" where
  "process_line num onStream line st =
     (if startsWith line (js ''data: '') then
        (case JSON_parse (drop 6 line) of
           None \<Rightarrow> st
         | Some parsedData \<Rightarrow>
             (case get_property parsedData (js ''type'') of
                Inl e \<Rightarrow> st
              | Inr t \<Rightarrow>
                  if t = Some (JString (js ''content'')) then
                    (case get_property parsedData (js ''content'') of
                       Inl e \<Rightarrow> st
                     | Inr x \<Rightarrow>
                         (case to_string_or_undefined num x of
                            Inl e \<Rightarrow> st
                          | Inr fragment \<Rightarrow>
                              (let result' = result st @ fragment
                               in st\<lparr>result := result',
                                     emitted :=
                                       (if onStream then emitted st @ [result'] else emitted st)\<rparr>)))
                  else st))
      else st)"

definition process_chunk ::
  "(js_string \<Rightarrow> js_string) \<Rightarrow> bool \<Rightarrow> js_string \<Rightarrow> decoder_state \<Rightarrow> decoder_state" where
  "process_chunk num onStream chunk st =
     (let lines = split_on 0x0A chunk
      in fold (process_line num onStream) lines st)"

text \<open>
  The transport: \<^verbatim>\<open>fetch\<close> rejects, or gives a response with its \<^verbatim>\<open>ok\<close> flag, its status
  and, if it has a body, what the successive \<^verbatim>\<open>reader.read()\<close> give before \<^verbatim>\<open>done\<close>: a
  chunk, here the text \<^verbatim>\<open>decoder.decode(value)\<close> makes of it, or a rejection when the
  stream breaks.
\<close>

datatype read_result = Chunk js_string | Broken

record response =
  ok :: bool
  status :: nat
  body :: "read_result list option"

datatype fetch_result = Rejected | Responded response

fun read_loop ::
  "(js_string \<Rightarrow> js_string) \<Rightarrow> bool \<Rightarrow> read_result list \<Rightarrow> decoder_state \<Rightarrow> thrown option \<times> decoder_state" where
  "read_loop num onStream [] st = (None, st)"
| "read_loop num onStream (Chunk chunk # reads) st =
     read_loop num onStream reads (process_chunk num onStream chunk st)"
| "read_loop num onStream (Broken # reads) st = (Some ReadFailed, st)"

text \<open>
  The outcome of a call: what the promise settles to, the snapshots the observer has
  received, and how often \<^verbatim>\<open>fetch\<close> was called. The value returned is
  \<^verbatim>\<open>{data: {response, conversation_id}}\<close>, the identifier being the one of the request.
\<close>

record 'a outcome =
  settled :: "thrown + (js_string \<times> 'a)"
  observed :: "js_string list"
  fetch_calls :: nat

definition api_post ::
  "(js_string \<Rightarrow> js_string) \<Rightarrow> bool \<Rightarrow> 'a \<Rightarrow> fetch_result \<Rightarrow> 'a outcome" where
  "api_post num onStream conversation_id fetched =
     (case fetched of
        Rejected \<Rightarrow> \<lparr>settled = Inl NetworkError, observed = [], fetch_calls = 1\<rparr>
      | Responded r \<Rightarrow>
          if \<not> ok r then \<lparr>settled = Inl (HttpError (status r)), observed = [], fetch_calls = 1\<rparr>
          else
            (case body r of
               None \<Rightarrow> \<lparr>settled = Inl NoReader, observed = [], fetch_calls = 1\<rparr>
             | Some reads \<Rightarrow>
                 (case read_loop num onStream reads \<lparr>result = [], emitted = []\<rparr> of
                    (Some e, st) \<Rightarrow> \<lparr>settled = Inl e, observed = emitted st, fetch_calls = 1\<rparr>
                  | (None, st) \<Rightarrow>
                      \<lparr>settled = Inr (result st, conversation_id), observed = emitted st,
                       fetch_calls = 1\<rparr>)))"


section \<open>Notions used to state the properties\<close>

text \<open>A value with no white space at either end; the empty string is one.\<close>

definition trimmed :: "js_string \<Rightarrow> bool" where
  "trimmed v = (v = [] \<or> (\<not> is_space (hd v) \<and> \<not> is_space (last v)))"

text \<open>
  The number of places in a text where a digit is immediately followed by a period: each
  is the end of one occurrence of one or more digits followed by a period.
\<close>

fun digit_period_count :: "js_string \<Rightarrow> nat" where
  "digit_period_count (a # b # r) =
     (if is_digit a \<and> b = 0x2E then 1 else 0) + digit_period_count (b # r)"
| "digit_period_count [a] = 0"
| "digit_period_count [] = 0"

text \<open>
  A well-formed labelled block, as the round trip builds it from the four values of a
  record: the labels in their fixed order, each value after its label, a hyphen between
  the fields, a newline at the end. A numbered block is such a block after a list number,
  a non-empty run of digits, and a period; the text is the blocks one after the other.
\<close>

definition block_body :: "EmailData \<Rightarrow> js_string" where
  "block_body e =
     js '' **From**: '' @ sender e @ js '' - **Date**: '' @ date e @ js '' - **Subject**: '' @ subject e
       @ js '' - **Content**: '' @ content e @ [0x0A]"

definition list_number :: "js_string \<Rightarrow> bool" where
  "list_number n = (n \<noteq> [] \<and> list_all is_digit n)"

definition numbered_block :: "js_string \<times> EmailData \<Rightarrow> js_string" where
  "numbered_block item = fst item @ [0x2E] @ block_body (snd item)"

definition numbered_text :: "(js_string \<times> EmailData) list \<Rightarrow> js_string" where
  "numbered_text items = concat (map numbered_block items)"

text \<open>No value of the record holds a digit immediately followed by a period.\<close>

definition no_digit_period :: "EmailData \<Rightarrow> bool" where
  "no_digit_period e =
     (digit_period_count (sender e) = 0 \<and> digit_period_count (date e) = 0 \<and>
      digit_period_count (subject e) = 0 \<and> digit_period_count (content e) = 0)"

text \<open>
  \<open>no_start lit a s\<close>: in the text \<open>a @ s\<close> the literal \<open>lit\<close> starts at no position of \<open>a\<close>.
\<close>

fun no_start :: "js_string \<Rightarrow> js_string \<Rightarrow> js_string \<Rightarrow> bool" where
  "no_start lit [] s = True"
| "no_start lit (c # a) s = (\<not> prefix lit (c # a @ s) \<and> no_start lit a s)"

text \<open>
  The labels of a block are in their fixed order when no value holds the marker of a later
  field: then each label pattern finds its own label first. \<open>trim_fields\<close> is the record
  with every value trimmed.
\<close>

definition labels_in_order :: "EmailData \<Rightarrow> bool" where
  "labels_in_order e =
     (\<not> string_includes (sender e) (js ''**Date**:'') \<and>
      \<not> string_includes (sender e) (js ''**Subject**:'') \<and>
      \<not> string_includes (sender e) (js ''**Content**:'') \<and>
      \<not> string_includes (date e) (js ''**Subject**:'') \<and>
      \<not> string_includes (date e) (js ''**Content**:'') \<and>
      \<not> string_includes (subject e) (js ''**Content**:''))"

definition trim_fields :: "EmailData \<Rightarrow> EmailData" where
  "trim_fields e =
     \<lparr>sender = trim (sender e), date = trim (date e), subject = trim (subject e),
      content = trim (content e)\<rparr>"








section \<open>Facts about strings, loops and matches\<close>

lemma string_includes_iff: "string_includes s lit \<longleftrightarrow> (\<exists>pre post. s = pre @ lit @ post)"
  by (simp add: string_includes_def sublist_def)

lemma trimmed_trim: "trimmed (trim s)"
proof -
  define t where "t = dropWhile is_space s"
  define u where "u = dropWhile is_space (rev t)"
  have tr: "trim s = rev u" by (simp add: trim_def t_def u_def)
  show ?thesis
  proof (cases "u = []")
    case True
    with tr show ?thesis by (simp add: trimmed_def)
  next
    case False
    have hu: "\<not> is_space (hd u)"
      using False unfolding u_def by (rule hd_dropWhile)
    obtain p where p: "rev t = p @ u"
      unfolding u_def by (metis takeWhile_dropWhile_id)
    then have tne: "t \<noteq> []" using False by auto
    have "last u = last (rev t)" using p False by simp
    also have "\<dots> = hd t" using tne by (simp add: last_rev)
    finally have lu: "last u = hd t" .
    have "\<not> is_space (hd t)"
      using tne unfolding t_def by (rule hd_dropWhile)
    with lu hu False tr show ?thesis
      by (simp add: trimmed_def hd_rev last_rev)
  qed
qed

lemma sublist_trans: "sublist a b \<Longrightarrow> sublist b c \<Longrightarrow> sublist a c"
  by (rule sublist_order.order_trans)

lemma suffix_sublist_trans: "sublist a b \<Longrightarrow> suffix b c \<Longrightarrow> sublist a c"
  by (meson sublist_trans suffix_imp_sublist)

lemma suffix_trans: "suffix a b \<Longrightarrow> suffix b c \<Longrightarrow> suffix a c"
  by (rule suffix_order.order_trans)

subsection \<open>The loops as list functions\<close>

lemma fold_pushEmail: "fold pushEmail bs acc = acc @ List.map_filter parseEmailFromText bs"
  by (induction bs arbitrary: acc) (auto simp: pushEmail_def split: option.splits)

lemma fold_pushEvent: "fold pushEvent bs acc = acc @ List.map_filter calendarOfBlock bs"
  by (induction bs arbitrary: acc) (auto simp: pushEvent_def split: option.splits)

lemma emailsOfBlocks_eq:
  "emailsOfBlocks bs = List.map_filter parseEmailFromText (filter keepBlock bs)"
  by (simp add: emailsOfBlocks_def fold_pushEmail)

lemma parseCalendar_eq:
  "parseCalendarEventsFromText text = List.map_filter calendarOfBlock (drop 1 (split_numbered text))"
  by (simp add: parseCalendarEventsFromText_def fold_pushEvent)


lemma set_map_filter: "set (List.map_filter f xs) = {y. \<exists>x \<in> set xs. f x = Some y}"
  by (induction xs) (auto simp: split: option.splits)

lemma parseEmailFromText_trimmed:
  "parseEmailFromText b = Some e \<Longrightarrow>
     trimmed (sender e) \<and> trimmed (date e) \<and> trimmed (subject e) \<and> trimmed (content e)"
  by (auto simp: parseEmailFromText_def Let_def trimmed_trim split: option.splits)

lemma calendarOfBlock_trimmed:
  "calendarOfBlock b = Some e \<Longrightarrow> trimmed (event e) \<and> trimmed (location e) \<and> trimmed (time e)"
  by (auto simp: calendarOfBlock_def Let_def trimmed_trim split: option.splits)

subsection \<open>Segments and matches are parts of the text\<close>

lemma match_delim_suffix: "match_delim s = Some r \<Longrightarrow> suffix r s"
proof -
  assume "match_delim s = Some r"
  then obtain c where "dropWhile is_digit s = c # r"
    by (auto simp: match_delim_def split: list.splits if_splits)
  then have "s = (takeWhile is_digit s @ [c]) @ r"
    by (metis append.assoc append_Cons append_Nil takeWhile_dropWhile_id)
  then show ?thesis unfolding suffix_def by blast
qed

lemma split_loop_sublist: "b \<in> set (split_loop seg s) \<Longrightarrow> sublist b (seg @ s)"
proof (induction seg s rule: split_loop.induct)
  case (1 seg)
  then show ?case by simp
next
  case (2 seg c cs)
  show ?case
  proof (cases "match_delim (c # cs)")
    case None
    with 2 show ?thesis by simp
  next
    case (Some rest)
    with 2 have "b = seg \<or> sublist b rest" by auto
    moreover have "suffix rest (c # cs)" using Some by (rule match_delim_suffix)
    then have "suffix rest (seg @ c # cs)" by (simp add: suffix_append)
    moreover have "sublist seg (seg @ c # cs)"
      by (rule prefix_imp_sublist) simp
    ultimately show ?thesis
      by (auto intro: suffix_sublist_trans)
  qed
qed

lemma lazy_capture_ahead: "lazy_capture ahead s = Some g \<Longrightarrow> \<exists>t. s = g @ t \<and> ahead t"
  by (induction s arbitrary: g) (auto split: if_splits)

lemma ahead_label_sublist: "ahead_label label t \<Longrightarrow> sublist label t"
proof -
  assume "ahead_label label t"
  then obtain c r where d: "dropWhile is_space t = c # r" and p: "prefix label (dropWhile is_space r)"
    by (auto simp: ahead_label_def split: list.splits)
  have "suffix (dropWhile is_space r) r" by (rule suffix_dropWhile)
  then have "suffix (dropWhile is_space r) (c # r)" by (rule suffix_ConsI)
  moreover have "suffix (c # r) t" using d by (metis suffix_dropWhile)
  ultimately have "suffix (dropWhile is_space r) t" by (rule suffix_trans)
  with p show ?thesis
    by (meson prefix_imp_sublist suffix_sublist_trans)
qed

lemma match_here_sublist:
  "match_here lit ahead s = Some g \<Longrightarrow> prefix lit s \<and> (\<exists>t. suffix t s \<and> ahead t)"
proof -
  assume a: "match_here lit ahead s = Some g"
  then have p: "prefix lit s" and l: "lazy_capture ahead (drop (length lit) s) = Some g"
    by (auto simp: match_here_def split: if_splits)
  from l obtain t where "drop (length lit) s = g @ t" "ahead t"
    using lazy_capture_ahead by blast
  then have "suffix t (drop (length lit) s)" by (simp add: suffixI)
  then have "suffix t s" using suffix_drop by (rule suffix_trans)
  with p \<open>ahead t\<close> show ?thesis by blast
qed

lemma regex_match_sublist:
  "regex_match lit ahead s = Some g \<Longrightarrow> sublist lit s \<and> (\<exists>t. suffix t s \<and> ahead t)"
proof (induction s)
  case Nil
  then show ?case using match_here_sublist[of lit ahead "[]" g] by auto
next
  case (Cons c cs)
  show ?case
  proof (cases "match_here lit ahead (c # cs)")
    case None
    with Cons have "sublist lit cs \<and> (\<exists>t. suffix t cs \<and> ahead t)" by simp
    then show ?thesis by (meson sublist_Cons_right suffix_ConsI)
  next
    case (Some g')
    then show ?thesis using match_here_sublist[of lit ahead "c # cs" g']
      by (meson prefix_imp_sublist)
  qed
qed

lemma calendarOfBlock_markers:
  assumes "calendarOfBlock b = Some e"
  shows "string_includes b (js ''**Event**:'') \<and> string_includes b (js ''**Location**:'')"
proof -
  from assms obtain g where g: "regex_match (js ''**Event**: '') (ahead_label (js ''**Location**:'')) b = Some g"
    by (auto simp: calendarOfBlock_def Let_def split: option.splits)
  from regex_match_sublist[OF g] obtain t where
    1: "sublist (js ''**Event**: '') b" and 2: "suffix t b" and 3: "ahead_label (js ''**Location**:'') t"
    by blast
  have "js ''**Event**: '' = js ''**Event**:'' @ js '' ''" by (simp add: js_def)
  then have "sublist (js ''**Event**:'') (js ''**Event**: '')"
    by (metis prefix_imp_sublist prefixI)
  then have "sublist (js ''**Event**:'') b" using 1 by (rule sublist_trans)
  moreover have "sublist (js ''**Location**:'') b"
    using ahead_label_sublist[OF 3] 2 by (rule suffix_sublist_trans)
  ultimately show ?thesis by (simp add: string_includes_def)
qed

lemma split_numbered_sublist: "b \<in> set (drop 1 (split_numbered text)) \<Longrightarrow> sublist b text"
  using split_loop_sublist[of b "[]" "text"] by (auto simp: split_numbered_def dest: in_set_dropD)

subsection \<open>Counting the delimiters\<close>

lemma period_not_digit: "\<not> is_digit 0x2E"
  by (simp add: is_digit_def)

lemma count_after_period: "digit_period_count (0x2E # r) = digit_period_count r"
  by (cases r) (simp_all add: period_not_digit)

lemma count_digits_period:
  "ds \<noteq> [] \<Longrightarrow> \<forall>d \<in> set ds. is_digit d \<Longrightarrow>
     digit_period_count (ds @ 0x2E # rest) = Suc (digit_period_count rest)"
proof (induction ds rule: digit_period_count.induct)
  case (1 a b r)
  then have "b \<noteq> 0x2E" using period_not_digit by auto
  with 1 show ?case by simp
next
  case (2 a)
  then show ?case by (simp add: count_after_period)
next
  case 3
  then show ?case by simp
qed

lemma match_delim_Some:
  "match_delim s = Some rest \<Longrightarrow>
     \<exists>ds. ds \<noteq> [] \<and> (\<forall>d \<in> set ds. is_digit d) \<and> s = ds @ 0x2E # rest"
proof -
  assume "match_delim s = Some rest"
  then have d: "dropWhile is_digit s = 0x2E # rest" and t: "takeWhile is_digit s \<noteq> []"
    by (auto simp: match_delim_def split: list.splits if_splits)
  have "s = takeWhile is_digit s @ 0x2E # rest"
    using d by (metis takeWhile_dropWhile_id)
  moreover have "\<forall>d \<in> set (takeWhile is_digit s). is_digit d"
    by (auto dest: set_takeWhileD)
  ultimately show ?thesis using t by blast
qed



subsection \<open>The segments of a numbered text\<close>

lemma count_skip_nondigit: "\<not> is_digit c \<Longrightarrow> digit_period_count (c # s) = digit_period_count s"
  by (cases s) simp_all

lemma count_Cons_le: "digit_period_count s \<le> digit_period_count (c # s)"
  by (cases s) simp_all

lemma count_append_value:
  "\<not> is_digit c \<Longrightarrow> c \<noteq> 0x2E \<Longrightarrow>
     digit_period_count (v @ c # s) = digit_period_count v + digit_period_count s"
proof (induction v rule: digit_period_count.induct)
  case (1 a b r)
  then show ?case by simp
next
  case (2 a)
  then show ?case by (simp add: count_skip_nondigit)
next
  case 3
  then show ?case by (simp add: count_skip_nondigit)
qed

lemma count_block_body: "no_digit_period e \<Longrightarrow> digit_period_count (block_body e) = 0"
  by (simp add: block_body_def no_digit_period_def js_def count_skip_nondigit count_append_value is_digit_def)

lemma last_block_body: "block_body e \<noteq> [] \<and> \<not> is_digit (last (block_body e))"
  by (simp add: block_body_def is_digit_def)

lemma match_delim_None_zero: "digit_period_count s = 0 \<Longrightarrow> match_delim s = None"
proof (rule ccontr)
  assume z: "digit_period_count s = 0" and "match_delim s \<noteq> None"
  then obtain r where "match_delim s = Some r" by auto
  then obtain ds where "ds \<noteq> []" "\<forall>d \<in> set ds. is_digit d" "s = ds @ 0x2E # r"
    using match_delim_Some by blast
  then have "digit_period_count s = Suc (digit_period_count r)"
    by (simp add: count_digits_period)
  with z show False by simp
qed

lemma match_delim_None_inside:
  assumes "B \<noteq> []" and "digit_period_count B = 0" and "\<not> is_digit (last B)"
  shows "match_delim (B @ t) = None"
proof (rule ccontr)
  assume "match_delim (B @ t) \<noteq> None"
  then obtain r where "match_delim (B @ t) = Some r" by auto
  then obtain ds where ds: "ds \<noteq> []" "\<forall>d \<in> set ds. is_digit d" and eq: "B @ t = ds @ 0x2E # r"
    using match_delim_Some by blast
  from eq consider u where "B = ds @ u" "u \<noteq> []" | u where "ds = B @ u"
    by (auto simp: append_eq_append_conv2) (metis append_Nil2)
  then show False
  proof cases
    case 1
    with eq have "u @ t = 0x2E # r" by simp
    with 1 obtain u' where "u = 0x2E # u'" by (cases u) auto
    with 1 have "B = ds @ 0x2E # u'" by simp
    then have "digit_period_count B = Suc (digit_period_count u')"
      using ds by (simp add: count_digits_period)
    with assms(2) show False by simp
  next
    case 2
    with assms(1) have "last B \<in> set ds" by auto
    with ds assms(3) show False by auto
  qed
qed

lemma split_loop_no_delim: "digit_period_count B = 0 \<Longrightarrow> split_loop acc B = [acc @ B]"
proof (induction B arbitrary: acc)
  case Nil
  then show ?case by simp
next
  case (Cons c B)
  have z: "digit_period_count B = 0"
    using Cons.prems count_Cons_le[of B c] by simp
  have "match_delim (c # B) = None"
    using Cons.prems by (rule match_delim_None_zero)
  then show ?case by (simp add: Cons.IH[OF z])
qed

lemma match_delim_number:
  assumes "list_number n"
  shows "match_delim (n @ 0x2E # rest) = Some rest"
proof -
  from assms have n: "n \<noteq> []" "\<forall>d \<in> set n. is_digit d"
    by (auto simp: list_number_def list_all_iff)
  have t: "takeWhile is_digit (n @ 0x2E # rest) = n"
    using n by (simp add: takeWhile_append2 period_not_digit)
  have d: "dropWhile is_digit (n @ 0x2E # rest) = 0x2E # rest"
    using n by (simp add: dropWhile_append2 period_not_digit)
  show ?thesis
    using n by (simp add: match_delim_def t d)
qed

lemma split_loop_segment:
  assumes "list_number n" and "digit_period_count B = 0" and "B = [] \<or> \<not> is_digit (last B)"
  shows "split_loop acc (B @ n @ 0x2E # rest) = (acc @ B) # split_loop [] rest"
  using assms(2,3)
proof (induction B arbitrary: acc)
  case Nil
  from assms(1) obtain d n' where n: "n = d # n'"
    by (cases n) (auto simp: list_number_def)
  have "match_delim (n @ 0x2E # rest) = Some rest"
    using assms(1) by (rule match_delim_number)
  then show ?case by (simp add: n)
next
  case (Cons c B)
  have z: "digit_period_count B = 0"
    using Cons.prems(1) count_Cons_le[of B c] by simp
  have l: "B = [] \<or> \<not> is_digit (last B)"
    using Cons.prems(2) by (cases B) auto
  have "\<not> is_digit (last (c # B))" using Cons.prems(2) by simp
  then have "match_delim ((c # B) @ n @ 0x2E # rest) = None"
    using Cons.prems(1) by (intro match_delim_None_inside) auto
  then show ?case
    using Cons.IH[OF z l, of "acc @ [c]"] by simp
qed

lemma split_loop_numbered_text:
  assumes "\<forall>item \<in> set items. list_number (fst item) \<and> no_digit_period (snd item)"
    and "digit_period_count B = 0" and "B = [] \<or> \<not> is_digit (last B)"
  shows "split_loop acc (B @ numbered_text items)
           = (acc @ B) # map (\<lambda>item. block_body (snd item)) items"
  using assms
proof (induction items arbitrary: acc B)
  case Nil
  then show ?case by (simp add: numbered_text_def split_loop_no_delim)
next
  case (Cons item items)
  have n: "list_number (fst item)" and v: "no_digit_period (snd item)"
    and rest: "\<forall>item \<in> set items. list_number (fst item) \<and> no_digit_period (snd item)"
    using Cons.prems(1) by auto
  have t: "numbered_text (item # items)
      = fst item @ 0x2E # (block_body (snd item) @ numbered_text items)"
    by (simp add: numbered_text_def numbered_block_def)
  have "split_loop acc (B @ numbered_text (item # items))
      = (acc @ B) # split_loop [] (block_body (snd item) @ numbered_text items)"
    unfolding t using n Cons.prems(2,3) by (rule split_loop_segment)
  also have "split_loop [] (block_body (snd item) @ numbered_text items)
      = ([] @ block_body (snd item)) # map (\<lambda>item. block_body (snd item)) items"
    using rest count_block_body[OF v] last_block_body[of "snd item"]
    by (intro Cons.IH) auto
  finally show ?case by simp
qed

lemma segments_of_numbered_text:
  assumes "\<forall>item \<in> set items. list_number (fst item) \<and> no_digit_period (snd item)"
  shows "drop 1 (split_numbered (numbered_text items)) = map (\<lambda>item. block_body (snd item)) items"
  using split_loop_numbered_text[OF assms, of "[]" "[]"] by (simp add: split_numbered_def)

subsection \<open>The field patterns on a well-formed block\<close>

lemma no_start_append:
  "no_start lit (a @ b) s = (no_start lit a (b @ s) \<and> no_start lit b s)"
  by (induction a) auto

lemma regex_match_skip:
  "no_start lit a s \<Longrightarrow> regex_match lit ahead (a @ s) = regex_match lit ahead s"
  by (induction a) (auto simp: match_here_def)

lemma regex_match_here:
  "match_here lit ahead s = Some g \<Longrightarrow> regex_match lit ahead s = Some g"
  by (cases s) simp_all

lemma sublist_Cons_not: "\<not> sublist m (c # v) \<Longrightarrow> \<not> sublist m v"
  by (auto simp: sublist_Cons_right)

lemma no_start_value:
  assumes "\<not> sublist m v" and "sp \<notin> set m"
  shows "no_start (m @ [sp]) v (sp # s)"
  using assms(1)
proof (induction v)
  case Nil
  then show ?case by simp
next
  case (Cons c v)
  have "\<not> prefix (m @ [sp]) ((c # v) @ sp # s)"
  proof
    assume "prefix (m @ [sp]) ((c # v) @ sp # s)"
    then consider "prefix (m @ [sp]) (c # v)"
      | us where "m @ [sp] = (c # v) @ us" "prefix us (sp # s)"
      using prefix_append[of "m @ [sp]" "c # v" "sp # s"] by auto
    then show False
    proof cases
      case 1
      then have "prefix m (c # v)" by (rule append_prefixD)
      then have "sublist m (c # v)" by (rule prefix_imp_sublist)
      with Cons.prems show False by simp
    next
      case 2
      show False
      proof (cases us)
        case Nil
        with 2 have "prefix m (c # v)" by (metis append_Nil2 prefixI)
        then have "sublist m (c # v)" by (rule prefix_imp_sublist)
        with Cons.prems show False by simp
      next
        case us: (Cons u us')
        with 2 have eq: "m @ [sp] = (c # v) @ sp # us'" by simp
        have "us' = []"
        proof (rule ccontr)
          assume ne: "us' \<noteq> []"
          have "m = butlast (m @ [sp])" by simp
          also have "\<dots> = butlast ((c # v) @ sp # us')" by (simp only: eq)
          also have "\<dots> = (c # v) @ sp # butlast us'" using ne by (simp add: butlast_append)
          finally have "sp \<in> set m" by simp
          with assms(2) show False by simp
        qed
        with eq have "m = c # v" by simp
        then have "sublist m (c # v)" by simp
        with Cons.prems show False by simp
      qed
    qed
  qed
  moreover have "no_start (m @ [sp]) v (sp # s)"
    using Cons by (auto dest: sublist_Cons_not)
  ultimately show ?case by simp
qed

lemma trim_append_ws:
  assumes "\<forall>c \<in> set t. is_space c"
  shows "trim (g @ t) = trim g"
proof (cases "\<forall>c \<in> set g. is_space c")
  case True
  then have a: "dropWhile is_space (g @ t) = []" and b: "dropWhile is_space g = []"
    using assms by (auto simp: dropWhile_eq_Nil_conv)
  show ?thesis by (simp only: trim_def a b)
next
  case False
  then have 1: "dropWhile is_space (g @ t) = dropWhile is_space g @ t"
    by (auto simp: dropWhile_append1)
  have 2: "dropWhile is_space (rev t @ r) = dropWhile is_space r" for r
    by (rule dropWhile_append2) (use assms in auto)
  show ?thesis by (simp add: trim_def 1 2)
qed

lemma lazy_capture_at_end: "lazy_capture at_end s = Some s"
  by (induction s) (simp_all add: at_end_def)

lemma ahead_label_ws:
  "\<forall>c \<in> set w. is_space c \<Longrightarrow> ahead_label L (w @ s) = ahead_label L s"
  by (simp add: ahead_label_def dropWhile_append2)

lemma ahead_label_joiner:
  assumes "L \<noteq> []" and "\<not> is_space (hd L)"
  shows "ahead_label L (0x20 # 0x2D # 0x20 # L @ rest)"
proof -
  from assms obtain x L' where L: "L = x # L'" "\<not> is_space x" by (cases L) auto
  show ?thesis
    by (simp add: ahead_label_def is_space_def L[unfolded is_space_def])
qed

lemma split_at_nonspace:
  assumes "\<exists>c \<in> set w. \<not> is_space c"
  obtains ws x w' where "w = ws @ x # w'" "\<forall>c \<in> set ws. is_space c" "\<not> is_space x"
proof -
  have "dropWhile is_space w \<noteq> []" using assms by (simp add: dropWhile_eq_Nil_conv)
  then obtain x w' where d: "dropWhile is_space w = x # w'" by (cases "dropWhile is_space w") auto
  have "w = takeWhile is_space w @ x # w'" using d by (metis takeWhile_dropWhile_id)
  moreover have "\<forall>c \<in> set (takeWhile is_space w). is_space c" by (auto dest: set_takeWhileD)
  moreover have "\<not> is_space x" using d by (metis hd_dropWhile list.sel(1) list.distinct(1))
  ultimately show ?thesis using that by blast
qed

lemma ahead_label_inside:
  assumes ne: "\<exists>c \<in> set w. \<not> is_space c"
    and ns: "\<not> sublist L w"
    and L: "L \<noteq> []" "hd L \<noteq> 0x2D" "0x20 \<notin> set L"
  shows "\<not> ahead_label L (w @ 0x20 # 0x2D # 0x20 # L @ rest)"
proof
  let ?K = "0x20 # 0x2D # 0x20 # L @ rest"
  assume a: "ahead_label L (w @ ?K)"
  from ne obtain ws x w1 where w: "w = ws @ x # w1" and ws: "\<forall>c \<in> set ws. is_space c" and x: "\<not> is_space x"
    by (rule split_at_nonspace)
  have d: "dropWhile is_space (w @ ?K) = x # w1 @ ?K"
    using ws x by (simp add: w dropWhile_append2)
  from a have p: "prefix L (dropWhile is_space (w1 @ ?K))"
    by (simp add: ahead_label_def d)
  have sp: "is_space 0x20" "\<not> is_space 0x2D" by (simp_all add: is_space_def)
  show False
  proof (cases "\<forall>c \<in> set w1. is_space c")
    case True
    then have "dropWhile is_space (w1 @ ?K) = 0x2D # 0x20 # L @ rest"
      using sp by (simp add: dropWhile_append2)
    with p L show False by (cases L) auto
  next
    case False
    then obtain ws2 y w2 where w1: "w1 = ws2 @ y # w2" and ws2: "\<forall>c \<in> set ws2. is_space c"
      and y: "\<not> is_space y"
      by (metis split_at_nonspace)
    have "dropWhile is_space (w1 @ ?K) = (y # w2) @ ?K"
      using ws2 y by (simp add: w1 dropWhile_append2)
    with p have "prefix L ((y # w2) @ ?K)" by simp
    then consider "prefix L (y # w2)" | us where "L = (y # w2) @ us" "prefix us ?K"
      using prefix_append[of L "y # w2" ?K] by auto
    then show False
    proof cases
      case 1
      have "suffix (y # w2) w" by (simp add: w w1 suffix_def)
      with 1 have "sublist L w"
        by (meson prefix_imp_sublist suffix_sublist_trans)
      with ns show False by simp
    next
      case 2
      show False
      proof (cases us)
        case Nil
        with 2 have "L = y # w2" by simp
        moreover have "suffix (y # w2) w" by (simp add: w w1 suffix_def)
        ultimately have "sublist L w" by (simp add: suffix_imp_sublist)
        with ns show False by simp
      next
        case (Cons u us')
        with 2 have "u = 0x20" by simp
        with 2 Cons have "0x20 \<in> set L" by simp
        with L show False by simp
      qed
    qed
  qed
qed

lemma lazy_capture_label:
  assumes L: "L \<noteq> []" "hd L \<noteq> 0x2D" "0x20 \<notin> set L" "\<not> is_space (hd L)"
    and ns: "\<not> sublist L v"
  shows "\<exists>g t. lazy_capture (ahead_label L) (v @ 0x20 # 0x2D # 0x20 # L @ rest) = Some g \<and>
               v = g @ t \<and> (\<forall>c \<in> set t. is_space c)"
  using ns
proof (induction v)
  case Nil
  have "ahead_label L (0x20 # 0x2D # 0x20 # L @ rest)"
    using L(1,4) by (rule ahead_label_joiner)
  then show ?case by simp
next
  case (Cons c v)
  show ?case
  proof (cases "\<forall>x \<in> set (c # v). is_space x")
    case True
    then have "ahead_label L ((c # v) @ 0x20 # 0x2D # 0x20 # L @ rest)"
      using ahead_label_ws[of "c # v" L] ahead_label_joiner[OF L(1,4)] by blast
    then have "lazy_capture (ahead_label L) ((c # v) @ 0x20 # 0x2D # 0x20 # L @ rest) = Some []"
      by simp
    with True show ?thesis by auto
  next
    case False
    then have "\<not> ahead_label L ((c # v) @ 0x20 # 0x2D # 0x20 # L @ rest)"
      using Cons.prems L(1,2,3) by (intro ahead_label_inside) auto
    moreover have "\<not> sublist L v"
      using Cons.prems by (rule sublist_Cons_not)
    then obtain g t where
      "lazy_capture (ahead_label L) (v @ 0x20 # 0x2D # 0x20 # L @ rest) = Some g"
      "v = g @ t" "\<forall>c \<in> set t. is_space c"
      using Cons.IH by blast
    ultimately have "lazy_capture (ahead_label L) ((c # v) @ 0x20 # 0x2D # 0x20 # L @ rest) = Some (c # g)
        \<and> c # v = (c # g) @ t \<and> (\<forall>c \<in> set t. is_space c)"
      by simp
    then show ?thesis by blast
  qed
qed

lemma match_here_literal: "match_here lit ahead (lit @ s) = lazy_capture ahead s"
  by (simp add: match_here_def)

lemma labelled_field_match:
  assumes "no_start lit pre (lit @ v @ 0x20 # 0x2D # 0x20 # L @ rest)"
    and "L \<noteq> []" "hd L \<noteq> 0x2D" "0x20 \<notin> set L" "\<not> is_space (hd L)"
    and "\<not> sublist L v"
  shows "\<exists>g t. regex_match lit (ahead_label L) (pre @ lit @ v @ 0x20 # 0x2D # 0x20 # L @ rest) = Some g \<and>
               v = g @ t \<and> (\<forall>c \<in> set t. is_space c)"
proof -
  from lazy_capture_label[OF assms(2-6), of rest] obtain g t where
    g: "lazy_capture (ahead_label L) (v @ 0x20 # 0x2D # 0x20 # L @ rest) = Some g"
    and v: "v = g @ t" "\<forall>c \<in> set t. is_space c"
    by blast
  have "regex_match lit (ahead_label L) (pre @ lit @ v @ 0x20 # 0x2D # 0x20 # L @ rest)
      = regex_match lit (ahead_label L) (lit @ v @ 0x20 # 0x2D # 0x20 # L @ rest)"
    using assms(1) by (rule regex_match_skip)
  also have "\<dots> = Some g"
    by (rule regex_match_here) (simp add: match_here_literal g)
  finally show ?thesis using v by blast
qed

lemma last_field_match:
  assumes "no_start lit pre (lit @ s)"
  shows "regex_match lit at_end (pre @ lit @ s) = Some s"
proof -
  have "regex_match lit at_end (pre @ lit @ s) = regex_match lit at_end (lit @ s)"
    using assms by (rule regex_match_skip)
  also have "\<dots> = Some s"
    by (rule regex_match_here) (simp add: match_here_literal lazy_capture_at_end)
  finally show ?thesis .
qed

lemma marker_facts:
  "js ''**Date**:'' \<noteq> []" "hd (js ''**Date**:'') \<noteq> 0x2D" "0x20 \<notin> set (js ''**Date**:'')"
  "\<not> is_space (hd (js ''**Date**:''))"
  "js ''**Subject**:'' \<noteq> []" "hd (js ''**Subject**:'') \<noteq> 0x2D" "0x20 \<notin> set (js ''**Subject**:'')"
  "\<not> is_space (hd (js ''**Subject**:''))"
  "js ''**Content**:'' \<noteq> []" "hd (js ''**Content**:'') \<noteq> 0x2D" "0x20 \<notin> set (js ''**Content**:'')"
  "\<not> is_space (hd (js ''**Content**:''))"
  by (simp_all add: js_def is_space_def)

lemma no_start_joiners:
  "no_start (js ''**From**: '') [0x20] s"
  "no_start (js ''**Date**: '') (js '' **From**: '') s"
  "no_start (js ''**Date**: '') (js '' - '') s"
  "no_start (js ''**Subject**: '') (js '' **From**: '') s"
  "no_start (js ''**Subject**: '') (js '' - **Date**: '') s"
  "no_start (js ''**Subject**: '') (js '' - '') s"
  "no_start (js ''**Content**: '') (js '' **From**: '') s"
  "no_start (js ''**Content**: '') (js '' - **Date**: '') s"
  "no_start (js ''**Content**: '') (js '' - **Subject**: '') s"
  "no_start (js ''**Content**: '') (js '' - '') s"
  by (simp_all add: js_def)

lemma no_start_values:
  "\<not> sublist (js ''**Date**:'') v \<Longrightarrow> no_start (js ''**Date**: '') v (0x20 # s)"
  "\<not> sublist (js ''**Subject**:'') v \<Longrightarrow> no_start (js ''**Subject**: '') v (0x20 # s)"
  "\<not> sublist (js ''**Content**:'') v \<Longrightarrow> no_start (js ''**Content**: '') v (0x20 # s)"
proof -
  have 1: "js ''**Date**: '' = js ''**Date**:'' @ [0x20]"
    and 2: "js ''**Subject**: '' = js ''**Subject**:'' @ [0x20]"
    and 3: "js ''**Content**: '' = js ''**Content**:'' @ [0x20]"
    by (simp_all add: js_def)
  show "\<not> sublist (js ''**Date**:'') v \<Longrightarrow> no_start (js ''**Date**: '') v (0x20 # s)"
    unfolding 1 by (rule no_start_value) (simp_all add: marker_facts)
  show "\<not> sublist (js ''**Subject**:'') v \<Longrightarrow> no_start (js ''**Subject**: '') v (0x20 # s)"
    unfolding 2 by (rule no_start_value) (simp_all add: marker_facts)
  show "\<not> sublist (js ''**Content**:'') v \<Longrightarrow> no_start (js ''**Content**: '') v (0x20 # s)"
    unfolding 3 by (rule no_start_value) (simp_all add: marker_facts)
qed

lemma joiner_facts:
  "js '' **From**: '' = [0x20] @ js ''**From**: ''"
  "js '' - **Date**: '' = 0x20 # 0x2D # 0x20 # js ''**Date**:'' @ [0x20]"
  "js '' - **Subject**: '' = 0x20 # 0x2D # 0x20 # js ''**Subject**:'' @ [0x20]"
  "js '' - **Content**: '' = 0x20 # 0x2D # 0x20 # js ''**Content**:'' @ [0x20]"
  "js '' - **Date**: '' = js '' - '' @ js ''**Date**: ''"
  "js '' - **Subject**: '' = js '' - '' @ js ''**Subject**: ''"
  "js '' - **Content**: '' = js '' - '' @ js ''**Content**: ''"
  by (simp_all add: js_def)

lemma parseEmailFromText_block_body:
  assumes "labels_in_order e"
  shows "parseEmailFromText (block_body e) = Some (trim_fields e)"
proof -
  define f d s c where "f = sender e" and "d = date e" and "s = subject e" and "c = content e"
  from assms have fD: "\<not> sublist (js ''**Date**:'') f" and fS: "\<not> sublist (js ''**Subject**:'') f"
    and fC: "\<not> sublist (js ''**Content**:'') f" and dS: "\<not> sublist (js ''**Subject**:'') d"
    and dC: "\<not> sublist (js ''**Content**:'') d" and sC: "\<not> sublist (js ''**Content**:'') s"
    by (simp_all add: labels_in_order_def string_includes_def f_def d_def s_def)
  define R1 where "R1 = 0x20 # d @ js '' - **Subject**: '' @ s @ js '' - **Content**: '' @ c @ [0x0A]"
  define R2 where "R2 = 0x20 # s @ js '' - **Content**: '' @ c @ [0x0A]"
  define R3 where "R3 = 0x20 # c @ [0x0A]"
  have b1: "block_body e = [0x20] @ js ''**From**: '' @ f @ 0x20 # 0x2D # 0x20 # js ''**Date**:'' @ R1"
    by (simp add: block_body_def f_def d_def s_def c_def R1_def joiner_facts(1,2))
  have b2: "block_body e = (js '' **From**: '' @ f @ js '' - '') @ js ''**Date**: '' @ d
      @ 0x20 # 0x2D # 0x20 # js ''**Subject**:'' @ R2"
    by (simp add: block_body_def f_def d_def s_def c_def R2_def joiner_facts(3,5))
  have b3: "block_body e = (js '' **From**: '' @ f @ js '' - **Date**: '' @ d @ js '' - '')
      @ js ''**Subject**: '' @ s @ 0x20 # 0x2D # 0x20 # js ''**Content**:'' @ R3"
    by (simp add: block_body_def f_def d_def s_def c_def R3_def joiner_facts(4,6))
  have b4: "block_body e = (js '' **From**: '' @ f @ js '' - **Date**: '' @ d @ js '' - **Subject**: ''
      @ s @ js '' - '') @ js ''**Content**: '' @ c @ [0x0A]"
    by (simp add: block_body_def f_def d_def s_def c_def joiner_facts(7))
  have dash: "js '' - '' @ t = 0x20 # (js ''- '' @ t)" for t
    by (simp add: js_def)
  have jD: "js '' - **Date**: '' @ t = 0x20 # (js ''- **Date**: '' @ t)"
    and jS: "js '' - **Subject**: '' @ t = 0x20 # (js ''- **Subject**: '' @ t)" for t
    by (simp_all add: js_def)
  obtain gf tf where mf: "regex_match (js ''**From**: '') (ahead_label (js ''**Date**:'')) (block_body e) = Some gf"
    and vf: "f = gf @ tf" "\<forall>c \<in> set tf. is_space c"
    unfolding b1
    using labelled_field_match[of "js ''**From**: ''" "[0x20]" f "js ''**Date**:''" R1,
        OF no_start_joiners(1) marker_facts(1-4) fD]
    by blast
  have "no_start (js ''**Date**: '') (js '' **From**: '' @ f @ js '' - '') t" for t
    by (simp add: no_start_append no_start_joiners)
       (simp add: dash no_start_values(1)[OF fD])
  then obtain gd td where md: "regex_match (js ''**Date**: '') (ahead_label (js ''**Subject**:'')) (block_body e) = Some gd"
    and vd: "d = gd @ td" "\<forall>c \<in> set td. is_space c"
    unfolding b2
    using labelled_field_match[of "js ''**Date**: ''" "js '' **From**: '' @ f @ js '' - ''" d
        "js ''**Subject**:''" R2, OF _ marker_facts(5-8) dS]
    by blast
  have "no_start (js ''**Subject**: '') (js '' **From**: '' @ f @ js '' - **Date**: '' @ d @ js '' - '') t" for t
    by (simp add: no_start_append no_start_joiners)
       (simp add: dash jD no_start_values(2)[OF fS] no_start_values(2)[OF dS])
  then obtain gs ts where ms: "regex_match (js ''**Subject**: '') (ahead_label (js ''**Content**:'')) (block_body e) = Some gs"
    and vs: "s = gs @ ts" "\<forall>c \<in> set ts. is_space c"
    unfolding b3
    using labelled_field_match[of "js ''**Subject**: ''"
        "js '' **From**: '' @ f @ js '' - **Date**: '' @ d @ js '' - ''" s "js ''**Content**:''" R3,
        OF _ marker_facts(9-12) sC]
    by blast
  have "no_start (js ''**Content**: '')
      (js '' **From**: '' @ f @ js '' - **Date**: '' @ d @ js '' - **Subject**: '' @ s @ js '' - '') t" for t
    by (simp add: no_start_append no_start_joiners)
       (simp add: dash jD jS no_start_values(3)[OF fC] no_start_values(3)[OF dC] no_start_values(3)[OF sC])
  then have mc: "regex_match (js ''**Content**: '') at_end (block_body e) = Some (c @ [0x0A])"
    unfolding b4 by (rule last_field_match)
  have nl: "\<forall>x \<in> set [0x0A]. is_space x" by (simp add: is_space_def)
  have "trim gf = trim f" "trim gd = trim d" "trim gs = trim s" "trim (c @ [0x0A]) = trim c"
    using vf vd vs nl by (simp_all add: trim_append_ws)
  then show ?thesis
    by (simp add: parseEmailFromText_def mf md ms mc trim_fields_def f_def d_def s_def c_def)
qed

lemma map_filter_all_Some:
  "\<forall>x \<in> set xs. f (h x) = Some (g x) \<Longrightarrow> List.map_filter f (map h xs) = map g xs"
  by (induction xs) simp_all

subsection \<open>Lines, chunks and well-formed frames\<close>

lemma split_on_nonempty: "split_on sep s \<noteq> []"
  by (induction s) (auto split: list.splits)

lemma split_on_append_sep: "split_on sep (a @ sep # b) = split_on sep a @ split_on sep b"
proof (induction a)
  case Nil
  then show ?case by simp
next
  case (Cons c a)
  then show ?case
    using split_on_nonempty[of sep a] by (cases "split_on sep a") auto
qed

lemma split_on_no_sep: "sep \<notin> set s \<Longrightarrow> split_on sep s = [s]"
  by (induction s) auto





lemma read_loop_append:
  "read_loop num onStream (map Chunk chunks @ reads) st
     = read_loop num onStream reads (fold (process_chunk num onStream) chunks st)"
  by (induction chunks arbitrary: st) auto

lemma broken_stream_keeps_observed:
  "api_post num onStream cid
     (Responded \<lparr>ok = True, status = code, body = Some (map Chunk chunks @ Broken # reads)\<rparr>)
   = \<lparr>settled = Inl ReadFailed,
      observed = emitted (fold (process_chunk num onStream) chunks \<lparr>result = [], emitted = []\<rparr>),
      fetch_calls = 1\<rparr>"
  by (simp add: api_post_def read_loop_append)





section \<open>Properties of the classifier\<close>

text \<open>
  Claim C5. The classifier is total and decides by ordered checks: a text is \<open>Email\<close>
  exactly when it contains the marker \<^verbatim>\<open>[EMAIL]\<close>; \<open>Calendar\<close> exactly when it does not but
  contains both \<^verbatim>\<open>**Event**:\<close> and \<^verbatim>\<open>**Location**:\<close>; \<open>Text\<close> in every other case. A text
  with the email marker and both calendar markers is \<open>Email\<close>.
\<close>

theorem classifier_ordered:
  "(detectMessageType text = Email \<longleftrightarrow> (\<exists>pre post. text = pre @ js ''[EMAIL]'' @ post)) \<and>
   (detectMessageType text = Calendar \<longleftrightarrow>
      \<not> (\<exists>pre post. text = pre @ js ''[EMAIL]'' @ post) \<and>
      (\<exists>pre post. text = pre @ js ''**Event**:'' @ post) \<and>
      (\<exists>pre post. text = pre @ js ''**Location**:'' @ post)) \<and>
   (detectMessageType text = Text \<longleftrightarrow>
      \<not> (\<exists>pre post. text = pre @ js ''[EMAIL]'' @ post) \<and>
      \<not> ((\<exists>pre post. text = pre @ js ''**Event**:'' @ post) \<and>
         (\<exists>pre post. text = pre @ js ''**Location**:'' @ post))) \<and>
   detectMessageType (a @ js ''[EMAIL]'' @ b @ js ''**Event**:'' @ c @ js ''**Location**:'' @ d) = Email"
proof -
  have "string_includes (a @ js ''[EMAIL]'' @ b @ js ''**Event**:'' @ c @ js ''**Location**:'' @ d) (js ''[EMAIL]'')"
    unfolding string_includes_iff by blast
  then show ?thesis
    unfolding string_includes_iff[symmetric] by (simp add: detectMessageType_def)
qed

theorem classifier_ordered_witness:
  "detectMessageType (js ''[EMAIL] **Event**: x - **Location**: y'') = Email \<and>
   detectMessageType (js ''1. **Event**: x - **Location**: y'') = Calendar \<and>
   detectMessageType (js ''**Event**: x'') = Text"
proof -
  have 1: "js ''[EMAIL] **Event**: x - **Location**: y''
     = [] @ js ''[EMAIL]'' @ js '' '' @ js ''**Event**:'' @ js '' x - '' @ js ''**Location**:'' @ js '' y''"
    by (simp add: js_def)
  have 2: "detectMessageType (js ''1. **Event**: x - **Location**: y'') = Calendar"
    by code_simp
  have 3: "detectMessageType (js ''**Event**: x'') = Text"
    by code_simp
  from classifier_ordered[of "[]" "[]" "js '' ''" "js '' x - ''" "js '' y''"] 1 2 3
  show ?thesis by simp
qed

text \<open>
  Claim C4, as the code has it. The numbered example has no \<^verbatim>\<open>[EMAIL]\<close> marker and no
  calendar marker, so the classifier gives \<open>Text\<close>; the email extractor applied to it
  returns the one record of the example.
\<close>

theorem numbered_example_classified_text:
  "detectMessageType (js ''1. **From**: a@x.com - **Date**: Mon - **Subject**: Hi - **Content**: test'') = Text \<and>
   parseMultipleEmails (js ''1. **From**: a@x.com - **Date**: Mon - **Subject**: Hi - **Content**: test'')
     = [\<lparr>sender = js ''a@x.com'', date = js ''Mon'', subject = js ''Hi'', content = js ''test''\<rparr>]"
  by code_simp

text \<open>Claim C4 as stated fails: the example is not classified as an email list.\<close>

theorem numbered_example_not_email:
  "detectMessageType (js ''1. **From**: a@x.com - **Date**: Mon - **Subject**: Hi - **Content**: test'') \<noteq> Email"
  by code_simp

section \<open>Properties of the extractors\<close>

text \<open>
  Claim C3, as the code has it. Every field of every record emitted by the email
  extractor (by \<open>parseEmailFromText\<close> on a block and by \<open>parseMultipleEmails\<close> on a text) and
  by the calendar extractor is present and trimmed: it has no white space at either end.
  It may be empty: a candidate gives a record exactly when every label pattern matches
  it, whatever the captures are.
\<close>

theorem emitted_fields_trimmed:
  "(parseEmailFromText text = Some e \<or> e \<in> set (parseMultipleEmails text) \<longrightarrow>
      trimmed (sender e) \<and> trimmed (date e) \<and> trimmed (subject e) \<and> trimmed (content e)) \<and>
   (ev \<in> set (parseCalendarEventsFromText text) \<longrightarrow>
      trimmed (event ev) \<and> trimmed (location ev) \<and> trimmed (time ev)) \<and>
   (parseEmailFromText text \<noteq> None \<longleftrightarrow>
      regex_match (js ''**From**: '') (ahead_label (js ''**Date**:'')) text \<noteq> None \<and>
      regex_match (js ''**Date**: '') (ahead_label (js ''**Subject**:'')) text \<noteq> None \<and>
      regex_match (js ''**Subject**: '') (ahead_label (js ''**Content**:'')) text \<noteq> None \<and>
      regex_match (js ''**Content**: '') at_end text \<noteq> None) \<and>
   (calendarOfBlock text \<noteq> None \<longleftrightarrow>
      regex_match (js ''**Event**: '') (ahead_label (js ''**Location**:'')) text \<noteq> None \<and>
      regex_match (js ''**Location**: '') (ahead_label (js ''**Time**:'')) text \<noteq> None \<and>
      regex_match (js ''**Time**: '') at_end text \<noteq> None)"
proof -
  have 1: "parseEmailFromText text = Some e \<or> e \<in> set (parseMultipleEmails text) \<longrightarrow>
      trimmed (sender e) \<and> trimmed (date e) \<and> trimmed (subject e) \<and> trimmed (content e)"
    by (auto simp: parseMultipleEmails_def emailsOfBlocks_eq set_map_filter
        dest: parseEmailFromText_trimmed)
  have 2: "ev \<in> set (parseCalendarEventsFromText text) \<longrightarrow>
      trimmed (event ev) \<and> trimmed (location ev) \<and> trimmed (time ev)"
    by (auto simp: parseCalendar_eq set_map_filter dest: calendarOfBlock_trimmed)
  have 3: "parseEmailFromText text \<noteq> None \<longleftrightarrow>
      regex_match (js ''**From**: '') (ahead_label (js ''**Date**:'')) text \<noteq> None \<and>
      regex_match (js ''**Date**: '') (ahead_label (js ''**Subject**:'')) text \<noteq> None \<and>
      regex_match (js ''**Subject**: '') (ahead_label (js ''**Content**:'')) text \<noteq> None \<and>
      regex_match (js ''**Content**: '') at_end text \<noteq> None"
    by (simp add: parseEmailFromText_def Let_def split: option.splits)
  have 4: "calendarOfBlock text \<noteq> None \<longleftrightarrow>
      regex_match (js ''**Event**: '') (ahead_label (js ''**Location**:'')) text \<noteq> None \<and>
      regex_match (js ''**Location**: '') (ahead_label (js ''**Time**:'')) text \<noteq> None \<and>
      regex_match (js ''**Time**: '') at_end text \<noteq> None"
    by (simp add: calendarOfBlock_def Let_def split: option.splits)
  from 1 2 3 4 show ?thesis by blast
qed

theorem emitted_fields_trimmed_witness:
  "\<lparr>sender = js ''a@x.com'', date = js ''Mon'', subject = js ''Hi'', content = js ''test''\<rparr>
     \<in> set (parseMultipleEmails
         (js ''1. **From**:   a@x.com   - **Date**: Mon - **Subject**: Hi - **Content**: test  '')) \<and>
   trimmed (js ''a@x.com'') \<and> trimmed (js ''Mon'') \<and> trimmed (js ''Hi'') \<and> trimmed (js ''test'') \<and>
   \<lparr>event = js ''Lunch'', location = js ''Cafe'', time = js ''noon''\<rparr>
     \<in> set (parseCalendarEventsFromText
         (js ''1. **Event**: Lunch  - **Location**:  Cafe - **Time**: noon '')) \<and>
   trimmed (js ''Lunch'') \<and> trimmed (js ''Cafe'') \<and> trimmed (js ''noon'')"
proof -
  have e: "parseMultipleEmails
      (js ''1. **From**:   a@x.com   - **Date**: Mon - **Subject**: Hi - **Content**: test  '')
    = [\<lparr>sender = js ''a@x.com'', date = js ''Mon'', subject = js ''Hi'', content = js ''test''\<rparr>]"
    by code_simp
  have c: "parseCalendarEventsFromText
      (js ''1. **Event**: Lunch  - **Location**:  Cafe - **Time**: noon '')
    = [\<lparr>event = js ''Lunch'', location = js ''Cafe'', time = js ''noon''\<rparr>]"
    by code_simp
  from emitted_fields_trimmed
    [of "js ''1. **From**:   a@x.com   - **Date**: Mon - **Subject**: Hi - **Content**: test  ''"
        "\<lparr>sender = js ''a@x.com'', date = js ''Mon'', subject = js ''Hi'', content = js ''test''\<rparr>",
     THEN conjunct1]
    emitted_fields_trimmed
    [of "js ''1. **Event**: Lunch  - **Location**:  Cafe - **Time**: noon ''" _
       "\<lparr>event = js ''Lunch'', location = js ''Cafe'', time = js ''noon''\<rparr>",
     THEN conjunct2, THEN conjunct1]
  show ?thesis
    unfolding e c by simp
qed

text \<open>
  Claim C3 as stated fails: a block in which every label matches with nothing after it is
  emitted, by either extractor, with every field empty.
\<close>

theorem empty_fields_emitted:
  "parseMultipleEmails (js ''1. **From**: - **Date**: - **Subject**: - **Content**: '')
     = [\<lparr>sender = [], date = [], subject = [], content = []\<rparr>] \<and>
   parseCalendarEventsFromText (js ''1. **Event**: - **Location**: - **Time**: '')
     = [\<lparr>event = [], location = [], time = []\<rparr>]"
  by code_simp

text \<open>
  Claim C6, as the code has it. For every list of numbered blocks whose labels are in
  their fixed order, which contain no closing-remark phrase and in which no value holds a
  digit immediately followed by a period, the email extractor returns one record per
  block, in the order of the text, with each field the trimmed input value. The empty
  text gives the empty list.
\<close>

theorem email_round_trip:
  assumes "\<forall>item \<in> set items.
             list_number (fst item) \<and> labels_in_order (snd item) \<and>
             no_digit_period (snd item) \<and> keepBlock (block_body (snd item))"
  shows "parseMultipleEmails (numbered_text items) = map (\<lambda>item. trim_fields (snd item)) items \<and>
         parseMultipleEmails [] = []"
proof -
  have seg: "drop 1 (split_numbered (numbered_text items)) = map (\<lambda>item. block_body (snd item)) items"
    using assms by (intro segments_of_numbered_text) auto
  have keep: "filter keepBlock (map (\<lambda>item. block_body (snd item)) items)
      = map (\<lambda>item. block_body (snd item)) items"
    using assms by (auto simp: filter_id_conv)
  have "List.map_filter parseEmailFromText (map (\<lambda>item. block_body (snd item)) items)
      = map (\<lambda>item. trim_fields (snd item)) items"
    using assms by (intro map_filter_all_Some) (auto simp: parseEmailFromText_block_body)
  then have "parseMultipleEmails (numbered_text items) = map (\<lambda>item. trim_fields (snd item)) items"
    unfolding parseMultipleEmails_def Let_def emailsOfBlocks_eq seg keep .
  moreover have "parseMultipleEmails [] = []"
    by (simp add: parseMultipleEmails_def split_numbered_def emailsOfBlocks_eq)
  ultimately show ?thesis by simp
qed

theorem email_round_trip_witness:
  "parseMultipleEmails
     (js ''1. **From**: a@x.com - **Date**: Mon - **Subject**: Hi - **Content**: test'' @ [0x0A]
      @ js ''2. **From**:  b@y.org  - **Date**: Tue 3 - **Subject**: Re: Hi - **Content**: see v2 soon '' @ [0x0A])
     = [\<lparr>sender = js ''a@x.com'', date = js ''Mon'', subject = js ''Hi'', content = js ''test''\<rparr>,
        \<lparr>sender = js ''b@y.org'', date = js ''Tue 3'', subject = js ''Re: Hi'', content = js ''see v2 soon''\<rparr>]"
proof -
  define e1 where "e1 = \<lparr>sender = js ''a@x.com'', date = js ''Mon'', subject = js ''Hi'', content = js ''test''\<rparr>"
  define e2 where "e2 = \<lparr>sender = js '' b@y.org '', date = js ''Tue 3'', subject = js ''Re: Hi'',
     content = js ''see v2 soon ''\<rparr>"
  have n: "list_number (js ''1'')" "list_number (js ''2'')"
    by (simp_all add: list_number_def js_def is_digit_def)
  have o: "labels_in_order e1" "labels_in_order e2"
    unfolding e1_def e2_def by code_simp+
  have p: "no_digit_period e1" "no_digit_period e2"
    unfolding e1_def e2_def by code_simp+
  have k: "keepBlock (block_body e1)" "keepBlock (block_body e2)"
    unfolding e1_def e2_def by code_simp+
  have t: "numbered_text [(js ''1'', e1), (js ''2'', e2)]
     = js ''1. **From**: a@x.com - **Date**: Mon - **Subject**: Hi - **Content**: test'' @ [0x0A]
      @ js ''2. **From**:  b@y.org  - **Date**: Tue 3 - **Subject**: Re: Hi - **Content**: see v2 soon '' @ [0x0A]"
    by (simp add: numbered_text_def numbered_block_def block_body_def e1_def e2_def js_def)
  have r: "trim_fields e1 = \<lparr>sender = js ''a@x.com'', date = js ''Mon'', subject = js ''Hi'', content = js ''test''\<rparr>"
    "trim_fields e2 = \<lparr>sender = js ''b@y.org'', date = js ''Tue 3'', subject = js ''Re: Hi'', content = js ''see v2 soon''\<rparr>"
    unfolding e1_def e2_def by code_simp+
  have "parseMultipleEmails (numbered_text [(js ''1'', e1), (js ''2'', e2)])
     = [trim_fields e1, trim_fields e2]"
    using email_round_trip[of "[(js ''1'', e1), (js ''2'', e2)]"] n o p k by simp
  then show ?thesis
    unfolding t r .
qed

text \<open>
  Claim C6 as stated fails: a block with its four labels in order and no closing-remark
  phrase, whose date holds digits followed by periods, is cut inside the date and gives
  no record.
\<close>

theorem date_with_periods_lost:
  "list_number (js ''1'') \<and>
   labels_in_order \<lparr>sender = js ''a@x.com'', date = js ''12.03.2024'', subject = js ''Hi'', content = js ''test''\<rparr> \<and>
   keepBlock (block_body \<lparr>sender = js ''a@x.com'', date = js ''12.03.2024'', subject = js ''Hi'', content = js ''test''\<rparr>) \<and>
   numbered_text [(js ''1'', \<lparr>sender = js ''a@x.com'', date = js ''12.03.2024'', subject = js ''Hi'', content = js ''test''\<rparr>)]
     = js ''1. **From**: a@x.com - **Date**: 12.03.2024 - **Subject**: Hi - **Content**: test'' @ [0x0A] \<and>
   parseMultipleEmails
     (js ''1. **From**: a@x.com - **Date**: 12.03.2024 - **Subject**: Hi - **Content**: test'' @ [0x0A]) = []"
  by code_simp

text \<open>
  Claim C7. A numbered-list segment that contains one of the closing-remark phrases is
  excluded whole: the email extractor returns what it would return with that segment
  taken out of the segment list, whatever labelled fields the segment holds.
\<close>

theorem closing_segment_excluded:
  assumes "phrase \<in> set closingPhrases" and "string_includes block phrase"
    and "drop 1 (split_numbered text) = pre @ block # post"
  shows "parseMultipleEmails text = emailsOfBlocks (pre @ post)"
proof -
  have "\<not> keepBlock block"
    using assms(1,2) by (auto simp: keepBlock_def list_ex_iff)
  then show ?thesis
    using assms(3) by (simp add: parseMultipleEmails_def emailsOfBlocks_eq)
qed

theorem closing_segment_excluded_witness:
  "js ''Just let me know'' \<in> set closingPhrases \<and>
   string_includes (js '' **From**: a - **Date**: b - **Subject**: c - **Content**: d. Just let me know '')
     (js ''Just let me know'') \<and>
   parseEmailFromText (js '' **From**: a - **Date**: b - **Subject**: c - **Content**: d. Just let me know '')
     = Some \<lparr>sender = js ''a'', date = js ''b'', subject = js ''c'', content = js ''d. Just let me know''\<rparr> \<and>
   parseMultipleEmails
     (js ''1. **From**: a - **Date**: b - **Subject**: c - **Content**: d. Just let me know 2. **From**: e - **Date**: f - **Subject**: g - **Content**: h'')
     = [\<lparr>sender = js ''e'', date = js ''f'', subject = js ''g'', content = js ''h''\<rparr>]"
proof -
  have 1: "js ''Just let me know'' \<in> set closingPhrases"
    by (simp add: closingPhrases_def)
  have 2: "string_includes (js '' **From**: a - **Date**: b - **Subject**: c - **Content**: d. Just let me know '')
     (js ''Just let me know'')"
    by code_simp
  have 3: "drop 1 (split_numbered
     (js ''1. **From**: a - **Date**: b - **Subject**: c - **Content**: d. Just let me know 2. **From**: e - **Date**: f - **Subject**: g - **Content**: h''))
     = [] @ js '' **From**: a - **Date**: b - **Subject**: c - **Content**: d. Just let me know ''
         # [js '' **From**: e - **Date**: f - **Subject**: g - **Content**: h'']"
    by code_simp
  have 4: "emailsOfBlocks ([] @ [js '' **From**: e - **Date**: f - **Subject**: g - **Content**: h''])
     = [\<lparr>sender = js ''e'', date = js ''f'', subject = js ''g'', content = js ''h''\<rparr>]"
    by code_simp
  have 5: "parseEmailFromText (js '' **From**: a - **Date**: b - **Subject**: c - **Content**: d. Just let me know '')
     = Some \<lparr>sender = js ''a'', date = js ''b'', subject = js ''c'', content = js ''d. Just let me know''\<rparr>"
    by code_simp
  from closing_segment_excluded [OF 1 2 3] 1 2 4 5 show ?thesis by simp
qed

text \<open>
  Claim C8. The calendar extractor returns a list for every text (the function is total
  and has no error value, its \<^verbatim>\<open>catch\<close> branch being dead). On a text without the marker
  \<^verbatim>\<open>**Event**:\<close> or without the marker \<^verbatim>\<open>**Location**:\<close> the list is empty. Each segment
  is read on its own: one that does not match is skipped and the others still give their
  records, in order.
\<close>

theorem calendar_total:
  "(\<not> string_includes text (js ''**Event**:'') \<or> \<not> string_includes text (js ''**Location**:'')
      \<longrightarrow> parseCalendarEventsFromText text = []) \<and>
   parseCalendarEventsFromText text =
     List.map_filter calendarOfBlock (drop 1 (split_numbered text))"
proof -
  have "parseCalendarEventsFromText text = []"
    if h: "\<not> string_includes text (js ''**Event**:'') \<or> \<not> string_includes text (js ''**Location**:'')"
  proof -
    have "calendarOfBlock b = None" if b: "b \<in> set (drop 1 (split_numbered text))" for b
    proof (rule ccontr)
      assume "calendarOfBlock b \<noteq> None"
      then obtain e where "calendarOfBlock b = Some e" by auto
      then have "sublist (js ''**Event**:'') b \<and> sublist (js ''**Location**:'') b"
        using calendarOfBlock_markers by (simp add: string_includes_def)
      moreover have "sublist b text" using b by (rule split_numbered_sublist)
      ultimately have "sublist (js ''**Event**:'') text \<and> sublist (js ''**Location**:'') text"
        by (meson sublist_trans)
      with h show False by (simp add: string_includes_def)
    qed
    then have "set (List.map_filter calendarOfBlock (drop 1 (split_numbered text))) = {}"
      unfolding set_map_filter by auto
    then show ?thesis by (simp add: parseCalendar_eq)
  qed
  then show ?thesis by (simp add: parseCalendar_eq)
qed

theorem calendar_total_witness:
  "\<not> string_includes (js ''1. **Event**: Lunch - **Time**: noon'') (js ''**Location**:'') \<and>
   parseCalendarEventsFromText (js ''1. **Event**: Lunch - **Time**: noon'') = [] \<and>
   parseCalendarEventsFromText
     (js ''1. **Event**: Lunch 2. **Event**: Tea - **Location**: Cafe - **Time**: five'')
     = [\<lparr>event = js ''Tea'', location = js ''Cafe'', time = js ''five''\<rparr>]"
proof -
  have 1: "\<not> string_includes (js ''1. **Event**: Lunch - **Time**: noon'') (js ''**Location**:'')"
    by code_simp
  have 2: "List.map_filter calendarOfBlock (drop 1 (split_numbered
      (js ''1. **Event**: Lunch 2. **Event**: Tea - **Location**: Cafe - **Time**: five'')))
     = [\<lparr>event = js ''Tea'', location = js ''Cafe'', time = js ''five''\<rparr>]"
    by code_simp
  from calendar_total [of "js ''1. **Event**: Lunch - **Time**: noon''"]
    calendar_total [of "js ''1. **Event**: Lunch 2. **Event**: Tea - **Location**: Cafe - **Time**: five''"]
    1 2
  show ?thesis by simp
qed



section \<open>Properties of the stream decoder\<close>




text \<open>
  Claim C2, as the code has it. A line that starts with the prefix and is not valid JSON
  after it changes neither the text nor the emissions, and the lines around it, in its
  chunk and after it, are processed as if it were not there.
\<close>

theorem invalid_json_line_skipped:
  assumes "startsWith line (js ''data: '')" and "JSON_parse (drop 6 line) = None"
  shows "process_line num onStream line st = st \<and>
         fold (process_line num onStream) (before @ line # after) st
           = fold (process_line num onStream) (before @ after) st \<and>
         (0x0A \<notin> set line \<longrightarrow>
            process_chunk num onStream (line @ 0x0A # rest) st = process_chunk num onStream rest st)"
proof -
  have skip: "process_line num onStream line s = s" for s
    using assms by (simp add: process_line_def)
  have "process_chunk num onStream (line @ 0x0A # rest) st = process_chunk num onStream rest st"
    if "0x0A \<notin> set line"
    using that by (simp add: process_chunk_def split_on_append_sep split_on_no_sep skip)
  with skip show ?thesis by simp
qed

theorem invalid_json_line_skipped_witness:
  "startsWith (js ''data: {\"typ'') (js ''data: '') \<and>
   JSON_parse (drop 6 (js ''data: {\"typ'')) = None \<and>
   fold (process_line id True)
     ([js ''data: {\"type\":\"content\",\"content\":\"a\"}''] @ js ''data: {\"typ''
        # [js ''data: {\"type\":\"content\",\"content\":\"b\"}''])
     \<lparr>result = [], emitted = []\<rparr>
     = \<lparr>result = js ''ab'', emitted = [js ''a'', js ''ab'']\<rparr> \<and>
   process_chunk id True (js ''data: {\"typ'' @ 0x0A # js ''data: {\"type\":\"content\",\"content\":\"b\"}'')
     \<lparr>result = [], emitted = []\<rparr>
     = \<lparr>result = js ''b'', emitted = [js ''b'']\<rparr>"
proof -
  have 1: "startsWith (js ''data: {\"typ'') (js ''data: '')"
    by code_simp
  have 2: "JSON_parse (drop 6 (js ''data: {\"typ'')) = None"
    by code_simp
  have 3: "fold (process_line id True)
     ([js ''data: {\"type\":\"content\",\"content\":\"a\"}'']
        @ [js ''data: {\"type\":\"content\",\"content\":\"b\"}''])
     \<lparr>result = [], emitted = []\<rparr>
     = \<lparr>result = js ''ab'', emitted = [js ''a'', js ''ab'']\<rparr>"
    by code_simp
  have 4: "0x0A \<notin> set (js ''data: {\"typ'')"
    by (simp add: js_def)
  have 5: "process_chunk id True (js ''data: {\"type\":\"content\",\"content\":\"b\"}'')
     \<lparr>result = [], emitted = []\<rparr>
     = \<lparr>result = js ''b'', emitted = [js ''b'']\<rparr>"
    by code_simp
  from invalid_json_line_skipped [OF 1 2, of id True "\<lparr>result = [], emitted = []\<rparr>"
      "[js ''data: {\"type\":\"content\",\"content\":\"a\"}'']"
      "[js ''data: {\"type\":\"content\",\"content\":\"b\"}'']"
      "js ''data: {\"type\":\"content\",\"content\":\"b\"}''"] 1 2 3 4 5
  show ?thesis by simp
qed

text \<open>
  Claim C2 as stated fails for a content frame without a \<^verbatim>\<open>content\<close> member: the line is
  not skipped, the conversion of \<^verbatim>\<open>undefined\<close> is appended and a snapshot is emitted.
\<close>

theorem missing_content_appended:
  "JSON_parse (drop 6 (js ''data: {\"type\":\"content\"}''))
     = Some (JObject [(js ''type'', JString (js ''content''))]) \<and>
   process_line id True (js ''data: {\"type\":\"content\"}'') \<lparr>result = js ''Hi'', emitted = []\<rparr>
     = \<lparr>result = js ''Hiundefined'', emitted = [js ''Hiundefined'']\<rparr>"
  by code_simp

text \<open>
  Claim C9. When \<^verbatim>\<open>fetch\<close> rejects, or the response has an error status, or it has no
  readable body, the call throws at once: the observer is never invoked, nothing has
  been accumulated, and \<^verbatim>\<open>fetch\<close> has been called once, with no retry.
\<close>

theorem transport_failure:
  assumes "fetched = Rejected \<or> (fetched = Responded r \<and> (\<not> ok r \<or> body r = None))"
  shows "(\<exists>e. settled (api_post num onStream cid fetched) = Inl e) \<and>
         observed (api_post num onStream cid fetched) = [] \<and>
         fetch_calls (api_post num onStream cid fetched) = 1"
  using assms by (auto simp: api_post_def)

theorem transport_failure_witness:
  "settled (api_post id True (7::nat)
      (Responded \<lparr>ok = False, status = 500, body = Some [Chunk (js ''data: {\"type\":\"content\",\"content\":\"x\"}'')]\<rparr>))
     = Inl (HttpError 500) \<and>
   observed (api_post id True (7::nat)
      (Responded \<lparr>ok = False, status = 500, body = Some [Chunk (js ''data: {\"type\":\"content\",\"content\":\"x\"}'')]\<rparr>))
     = [] \<and>
   settled (api_post id True (7::nat) (Responded \<lparr>ok = True, status = 200, body = None\<rparr>)) = Inl NoReader \<and>
   observed (api_post id True (7::nat) (Responded \<lparr>ok = True, status = 200, body = None\<rparr>)) = []"
proof -
  define r1 where "r1 = \<lparr>ok = False, status = 500,
     body = Some [Chunk (js ''data: {\"type\":\"content\",\"content\":\"x\"}'')]\<rparr>"
  define r2 where "r2 = \<lparr>ok = True, status = 200, body = (None :: read_result list option)\<rparr>"
  have h1: "Responded r1 = Rejected \<or> (Responded r1 = Responded r1 \<and> (\<not> ok r1 \<or> body r1 = None))"
    by (simp add: r1_def)
  have h2: "Responded r2 = Rejected \<or> (Responded r2 = Responded r2 \<and> (\<not> ok r2 \<or> body r2 = None))"
    by (simp add: r2_def)
  have 1: "settled (api_post id True (7::nat) (Responded r1)) = Inl (HttpError 500)"
    by (simp add: api_post_def r1_def)
  have 2: "settled (api_post id True (7::nat) (Responded r2)) = Inl NoReader"
    by (simp add: api_post_def r2_def)
  from transport_failure [OF h1, of id True "7::nat"] transport_failure [OF h2, of id True "7::nat"] 1 2
  show ?thesis unfolding r1_def r2_def by simp
qed


end
